theory Spec2Isabelle
  imports Main "HOL-Library.Multiset"
begin

section \<open>The element comparator utilities of zguiElementComparator.h\<close>

text \<open>
  The header holds two function templates, \<open>sortArray\<close> and
  \<open>findInsertIndexInSortedArray\<close>, and the class template
  \<open>DefaultElementComparator\<close>.

  \<^item> An \<open>ElementComparator\<close> is its method \<open>compareElements\<close>, a function from two
    elements to a C++ \<open>int\<close> of which only the sign is ever inspected.
  \<^item> \<open>ElementType* const array\<close> is a raw pointer indexed by \<open>int\<close>: the model is the
    total function from index to cell content. No bound of the storage is known to the
    code, so none is known to the model; instead every comparator call, swap and stack
    write is recorded, in order, in a trace that the computation never reads.
  \<^item> The comparator is a function: called twice on the same pair it gives the same
    result, as the spec asks of it for the length of a call.
  \<^item> Indices are C++ \<open>int\<close>s of 32 bits, modelled by \<open>int\<close> with the range written
    out: signed overflow is undefined in C++, so an expression whose value leaves
    \<open>-2^31 .. 2^31 - 1\<close> is an outcome of its own. In the non-retaining sort these are
    \<open>(lastElement - firstElement) + 1\<close> (line 84), \<open>++k\<close> (line 92),
    \<open>lastElement + 1\<close> (line 108) and \<open>++i\<close> (line 112): each puts the event
    \<open>Overflow\<close> into the trace. In the search it is \<open>firstElement + lastElement\<close>
    (line 216), which ends the search with the error \<open>SignedOverflow\<close>. The two
    expressions left, \<open>i -= 2\<close> (line 75) and \<open>j - 1\<close> (line 128), leave the range only
    when \<open>firstElement\<close> is \<open>-2^31\<close>; they are not marked.
  \<^item> \<open>size >> 1\<close> on a positive \<open>int\<close> and \<open>(firstElement + lastElement) >> 1\<close> are
    \<open>div 2\<close> (rounding down).
\<close>

type_synonym 'a comparator = "'a \<Rightarrow> 'a \<Rightarrow> int"

type_synonym 'a array = "int \<Rightarrow> 'a"

datatype event =
    Compare int int   \<comment> \<open>\<open>compareElements (array[i], array[j])\<close>\<close>
  | Swap int int      \<comment> \<open>\<open>swapVariables (array[i], array[j])\<close>\<close>
  | Push int int int  \<comment> \<open>\<open>fromStack[k] = f; toStack[k] = t\<close>\<close>
  | Overflow          \<comment> \<open>an \<open>int\<close> expression evaluated to a value outside \<open>int\<close>\<close>

type_synonym 'a state = "'a array \<times> event list"

definition compareAt :: "'a comparator \<Rightarrow> 'a state \<Rightarrow> int \<Rightarrow> int \<Rightarrow> int \<times> 'a state" where
  "compareAt cmp s i j = (case s of (a, tr) \<Rightarrow> (cmp (a i) (a j), (a, tr @ [Compare i j])))"

text \<open>
  Modelled from the spec: \<open>swapVariables\<close> is not defined in the header; the spec
  describes it as the in-place swap of two cells (read, read, write, write).
\<close>

definition swapVariables :: "'a state \<Rightarrow> int \<Rightarrow> int \<Rightarrow> 'a state" where
  "swapVariables s i j = (case s of (a, tr) \<Rightarrow> (a(i := a j, j := a i), tr @ [Swap i j]))"

text \<open>
  The evaluation of an \<open>int\<close> expression of value \<open>v\<close>. Outside the range of \<open>int\<close> it
  is a signed overflow, which the trace records: from that event on the behaviour of
  the code is undefined, and what the model computes after it stands for nothing.
\<close>

definition intExpr :: "'a state \<Rightarrow> int \<Rightarrow> 'a state" where
  "intExpr s v =
     (if - 2147483648 \<le> v \<and> v \<le> 2147483647 then s else (fst s, snd s @ [Overflow]))"

subsection \<open>\<open>DefaultElementComparator\<close>\<close>

text \<open>\<open>lt\<close> is the element type's \<open>operator<\<close>.\<close>

definition compareElements :: "('a \<Rightarrow> 'a \<Rightarrow> bool) \<Rightarrow> 'a comparator" where
  "compareElements lt first second =
     (if lt first second then - 1 else if lt second first then 1 else 0)"

subsection \<open>\<open>sortArray\<close>, retaining the order of equivalent items (lines 70 to 77)\<close>

text \<open>
  One call of \<open>stableLoop\<close> is one test of the \<open>for\<close> condition followed by the body
  and the increment. The loop need not terminate, so the result is an option and a run
  that never leaves the loop is \<open>None\<close>.
\<close>

partial_function (option) stableLoop ::
  "'a comparator \<Rightarrow> int \<Rightarrow> int \<Rightarrow> 'a state \<Rightarrow> int \<Rightarrow> 'a state option" where
  "stableLoop cmp firstElement lastElement s i =
     (if i < lastElement then
        (case compareAt cmp s i (i + 1) of
           (c, s1) \<Rightarrow>
             if c > 0 then
               stableLoop cmp firstElement lastElement (swapVariables s1 i (i + 1))
                 ((if i > firstElement then i - 2 else i) + 1)
             else stableLoop cmp firstElement lastElement s1 (i + 1))
      else Some s)"

declare stableLoop.simps [code]

subsection \<open>\<open>sortArray\<close>, the selection sort of small ranges (lines 86 to 101)\<close>

text \<open>
  The \<open>for\<close> loop over \<open>k\<close>: it returns the final \<open>maxIndex\<close>. The \<open>++k\<close> that follows
  the body is evaluated before the next test \<open>k <= j\<close>.
\<close>

function maxScan :: "'a comparator \<Rightarrow> 'a state \<Rightarrow> int \<Rightarrow> int \<Rightarrow> int \<Rightarrow> int \<times> 'a state" where
  "maxScan cmp s maxIndex k j =
     (if k \<le> j then
        (case compareAt cmp s k maxIndex of
           (c, s1) \<Rightarrow>
             maxScan cmp (intExpr s1 (k + 1)) (if c > 0 then k else maxIndex) (k + 1) j)
      else (maxIndex, s))"
  by pat_completeness auto
termination
  by (relation "measure (\<lambda>(cmp, s, maxIndex, k, j). nat (j + 1 - k))") auto

declare maxScan.simps [simp del]

text \<open>The \<open>while (j > firstElement)\<close> loop.\<close>

function selectionLoop :: "'a comparator \<Rightarrow> int \<Rightarrow> 'a state \<Rightarrow> int \<Rightarrow> 'a state" where
  "selectionLoop cmp firstElement s j =
     (if j > firstElement then
        (case maxScan cmp s firstElement (firstElement + 1) j of
           (maxIndex, s1) \<Rightarrow>
             selectionLoop cmp firstElement (swapVariables s1 j maxIndex) (j - 1))
      else s)"
  by pat_completeness auto
termination
  by (relation "measure (\<lambda>(cmp, firstElement, s, j). nat (j - firstElement))") auto

declare selectionLoop.simps [simp del]

subsection \<open>\<open>sortArray\<close>, the Hoare partition (lines 104 to 126)\<close>

text \<open>\<open>while (++i <= lastElement && compareElements (array[i], array[firstElement]) <= 0) {}\<close>\<close>

function scanUp :: "'a comparator \<Rightarrow> int \<Rightarrow> int \<Rightarrow> 'a state \<Rightarrow> int \<Rightarrow> int \<times> 'a state" where
  "scanUp cmp firstElement lastElement s i =
     (let s0 = intExpr s (i + 1) in
      if i + 1 \<le> lastElement then
        (case compareAt cmp s0 (i + 1) firstElement of
           (c, s1) \<Rightarrow>
             if c \<le> 0 then scanUp cmp firstElement lastElement s1 (i + 1) else (i + 1, s1))
      else (i + 1, s0))"
  by pat_completeness auto
termination
  by (relation "measure (\<lambda>(cmp, firstElement, lastElement, s, i). nat (lastElement - i))") auto

declare scanUp.simps [simp del]

text \<open>\<open>while (--j > firstElement && compareElements (array[j], array[firstElement]) >= 0) {}\<close>\<close>

function scanDown :: "'a comparator \<Rightarrow> int \<Rightarrow> 'a state \<Rightarrow> int \<Rightarrow> int \<times> 'a state" where
  "scanDown cmp firstElement s j =
     (if j - 1 > firstElement then
        (case compareAt cmp s (j - 1) firstElement of
           (c, s1) \<Rightarrow>
             if c \<ge> 0 then scanDown cmp firstElement s1 (j - 1) else (j - 1, s1))
      else (j - 1, s))"
  by pat_completeness auto
termination
  by (relation "measure (\<lambda>(cmp, firstElement, s, j). nat (j - firstElement))") auto

declare scanDown.simps [simp del]

lemma intExpr_fst [simp]: "fst (intExpr s v) = fst s"
  by (simp add: intExpr_def)

lemma intExpr_in: "- 2147483648 \<le> v \<Longrightarrow> v \<le> 2147483647 \<Longrightarrow> intExpr s v = s"
  by (simp add: intExpr_def)

lemma scanUp_index: "scanUp cmp firstElement lastElement s i = (i1, s1) \<Longrightarrow>
    i < i1 \<and> (i \<le> lastElement \<longrightarrow> i1 \<le> lastElement + 1)"
proof (induction cmp firstElement lastElement s i rule: scanUp.induct)
  case (1 cmp firstElement lastElement s i)
  show ?case
  proof (cases "i + 1 \<le> lastElement")
    case True
    obtain c s' where c: "compareAt cmp (intExpr s (i + 1)) (i + 1) firstElement = (c, s')"
      by (cases "compareAt cmp (intExpr s (i + 1)) (i + 1) firstElement")
    show ?thesis
    proof (cases "c \<le> 0")
      case True
      with \<open>i + 1 \<le> lastElement\<close> c "1.prems"
      have "scanUp cmp firstElement lastElement s' (i + 1) = (i1, s1)" by (subst (asm) scanUp.simps) simp
      from "1.IH" [OF refl \<open>i + 1 \<le> lastElement\<close> c [symmetric] True this] \<open>i + 1 \<le> lastElement\<close>
      show ?thesis by simp
    next
      case False
      with \<open>i + 1 \<le> lastElement\<close> c "1.prems" show ?thesis by (subst (asm) scanUp.simps) auto
    qed
  next
    case False
    with "1.prems" show ?thesis by (subst (asm) scanUp.simps) auto
  qed
qed

lemma scanDown_index: "scanDown cmp firstElement s j = (j1, s1) \<Longrightarrow>
    j1 < j \<and> (firstElement \<le> j \<longrightarrow> firstElement \<le> j1 + 1) \<and> (firstElement < j \<longrightarrow> firstElement \<le> j1)"
proof (induction cmp firstElement s j rule: scanDown.induct)
  case (1 cmp firstElement s j)
  show ?case
  proof (cases "j - 1 > firstElement")
    case True
    obtain c s' where c: "compareAt cmp s (j - 1) firstElement = (c, s')"
      by (cases "compareAt cmp s (j - 1) firstElement")
    show ?thesis
    proof (cases "c \<ge> 0")
      case True
      with \<open>j - 1 > firstElement\<close> c "1.prems"
      have "scanDown cmp firstElement s' (j - 1) = (j1, s1)" by (subst (asm) scanDown.simps) simp
      from "1.IH" [OF \<open>j - 1 > firstElement\<close> c [symmetric] True this] \<open>j - 1 > firstElement\<close>
      show ?thesis by simp
    next
      case False
      with \<open>j - 1 > firstElement\<close> c "1.prems" show ?thesis by (subst (asm) scanDown.simps) auto
    qed
  next
    case False
    with "1.prems" show ?thesis by (subst (asm) scanDown.simps) auto
  qed
qed

text \<open>
  The inner \<open>for (;;)\<close> of lines 110 to 124: both scans, the test \<open>j < i\<close> and the
  swap. It returns the final \<open>i\<close> and \<open>j\<close>.
\<close>

function partitionLoop ::
  "'a comparator \<Rightarrow> int \<Rightarrow> int \<Rightarrow> 'a state \<Rightarrow> int \<Rightarrow> int \<Rightarrow> int \<times> int \<times> 'a state" where
  "partitionLoop cmp firstElement lastElement s i j =
     (case scanUp cmp firstElement lastElement s i of
        (i1, s1) \<Rightarrow>
          (case scanDown cmp firstElement s1 j of
             (j1, s2) \<Rightarrow>
               if j1 < i1 then (i1, j1, s2)
               else partitionLoop cmp firstElement lastElement (swapVariables s2 i1 j1) i1 j1))"
  by pat_completeness auto
termination
proof (relation "measure (\<lambda>(cmp, firstElement, lastElement, s, i, j). nat (j - i))", goal_cases)
  case 1
  show ?case by simp
next
  case (2 cmp firstElement lastElement s i j i1 s1 j1 s2)
  from 2 have "i < i1" "j1 < j" "i1 \<le> j1"
    using scanUp_index [of cmp firstElement lastElement s i i1 s1]
      scanDown_index [of cmp firstElement s1 j j1 s2] by auto
  then show ?case by simp
qed

declare partitionLoop.simps [simp del]

text \<open>
  Lines 104 to 126: the middle element becomes the pivot at \<open>firstElement\<close>, the range is
  partitioned, and the pivot is swapped to \<open>j\<close>. \<open>size\<close> is the constant of line 84,
  whose evaluation belongs to \<open>iteration\<close> below.
\<close>

definition partitionRange ::
  "'a comparator \<Rightarrow> 'a state \<Rightarrow> int \<Rightarrow> int \<Rightarrow> int \<times> int \<times> 'a state" where
  "partitionRange cmp s firstElement lastElement =
     (let size = (lastElement - firstElement) + 1;
          mid = firstElement + size div 2;
          s1 = intExpr (swapVariables s mid firstElement) (lastElement + 1)
      in case partitionLoop cmp firstElement lastElement s1 firstElement (lastElement + 1) of
           (i, j, s2) \<Rightarrow> (i, j, swapVariables s2 j firstElement))"

subsection \<open>\<open>sortArray\<close>, the stack of deferred ranges (lines 80 to 165)\<close>

text \<open>
  \<open>fromStack\<close>, \<open>toStack\<close> and \<open>stackIndex\<close> are one list of pairs, the top of the stack
  first: \<open>stackIndex\<close> is its length, and \<open>(fromStack[k], toStack[k])\<close> is its
  \<open>k\<close>-th pair counted from the end. Cells at or above \<open>stackIndex\<close> are never read
  before they are written again, so the list loses nothing; the index each push writes
  to is kept in the trace. The two C arrays have 30 cells each; the list has no bound.
\<close>

type_synonym stack = "(int \<times> int) list"

definition push :: "'a state \<Rightarrow> stack \<Rightarrow> int \<Rightarrow> int \<Rightarrow> 'a state \<times> stack" where
  "push s stk f t =
     (case s of (a, tr) \<Rightarrow> ((a, tr @ [Push (int (length stk)) f t]), (f, t) # stk))"

text \<open>
  Lines 128 to 157. The third component is the range the loop \<open>continue\<close>s with, or
  \<open>None\<close> when control falls through to the pop of line 160.
\<close>

definition deferStep ::
  "'a state \<Rightarrow> stack \<Rightarrow> int \<Rightarrow> int \<Rightarrow> int \<Rightarrow> int \<Rightarrow> 'a state \<times> stack \<times> (int \<times> int) option" where
  "deferStep s stk firstElement lastElement i j =
     (if j - 1 - firstElement \<ge> lastElement - i then
        (case (if firstElement + 1 < j then push s stk firstElement (j - 1) else (s, stk)) of
           (s1, stk1) \<Rightarrow>
             if i < lastElement then (s1, stk1, Some (i, lastElement)) else (s1, stk1, None))
      else
        (case (if i < lastElement then push s stk i lastElement else (s, stk)) of
           (s1, stk1) \<Rightarrow>
             if firstElement + 1 < j then (s1, stk1, Some (firstElement, j - 1))
             else (s1, stk1, None)))"

text \<open>Lines 84 to 158: the body of the outer \<open>for (;;)\<close> up to the pop.\<close>

definition iteration ::
  "'a comparator \<Rightarrow> 'a state \<Rightarrow> stack \<Rightarrow> int \<Rightarrow> int \<Rightarrow> 'a state \<times> stack \<times> (int \<times> int) option" where
  "iteration cmp s stk firstElement lastElement =
     (let size = (lastElement - firstElement) + 1;
          s0 = intExpr (intExpr s (lastElement - firstElement)) size
      in
      if size \<le> 8 then (selectionLoop cmp firstElement s0 lastElement, stk, None)
      else
        (case partitionRange cmp s0 firstElement lastElement of
           (i, j, s1) \<Rightarrow> deferStep s1 stk firstElement lastElement i j))"


lemma partitionLoop_index:
  "partitionLoop cmp f l s i j = (i', j', s') \<Longrightarrow> f \<le> i \<Longrightarrow> i \<le> l \<Longrightarrow> f < j \<Longrightarrow> j \<le> l + 1 \<Longrightarrow>
     f \<le> j' \<and> j' < i' \<and> i' \<le> l + 1 \<and> f < i'"
proof (induction cmp f l s i j rule: partitionLoop.induct)
  case (1 cmp f l s i j)
  obtain i1 s1 where up: "scanUp cmp f l s i = (i1, s1)"
    by (cases "scanUp cmp f l s i")
  obtain j1 s2 where down: "scanDown cmp f s1 j = (j1, s2)"
    by (cases "scanDown cmp f s1 j")
  from scanUp_index [OF up] "1.prems" have i1: "i < i1" "i1 \<le> l + 1" by auto
  from scanDown_index [OF down] "1.prems" have j1: "j1 < j" "f \<le> j1" by auto
  show ?case
  proof (cases "j1 < i1")
    case True
    with up down "1.prems"(1) have "i' = i1 \<and> j' = j1"
      by (subst (asm) partitionLoop.simps) simp
    with True i1 j1 "1.prems" show ?thesis by simp
  next
    case False
    with up down "1.prems"(1)
    have "partitionLoop cmp f l (swapVariables s2 i1 j1) i1 j1 = (i', j', s')"
      by (subst (asm) partitionLoop.simps) simp
    from "1.IH" [OF up [symmetric] down [symmetric] False this] False i1 j1 "1.prems"
    show ?thesis by simp
  qed
qed

lemma partitionRange_index:
  assumes "partitionRange cmp s f l = (i, j, s')" "f < l"
  shows "f \<le> j \<and> j < i \<and> i \<le> l + 1 \<and> f < i"
proof -
  obtain i0 j0 s0 where p: "partitionLoop cmp f l 
      (intExpr (swapVariables s (f + (l - f + 1) div 2) f) (l + 1)) f (l + 1) = (i0, j0, s0)"
    by (metis prod_cases3)
  with assms(1) have "i = i0" "j = j0" by (simp_all add: partitionRange_def Let_def)
  with partitionLoop_index [OF p] assms(2) show ?thesis by simp
qed

text \<open>
  The measure of the outer loop: a range weighs twice its size plus one, and the state
  weighs its current range and every range on the stack.
\<close>

definition weight :: "int \<times> int \<Rightarrow> nat" where
  "weight r = 2 * nat (snd r - fst r + 1) + 1"

lemma deferStep_weight:
  assumes "deferStep s stk f l i j = (s1, stk1, nxt)" "f \<le> j" "j < i" "i \<le> l + 1"
  shows "(case nxt of Some r \<Rightarrow> weight r | None \<Rightarrow> 0) + sum_list (map weight stk1)
           < weight (f, l) + sum_list (map weight stk)"
  using assms
  by (auto simp: deferStep_def push_def weight_def split: if_splits prod.splits)

lemma iteration_weight:
  assumes "iteration cmp s stk f l = (s1, stk1, nxt)"
  shows "(case nxt of Some r \<Rightarrow> weight r | None \<Rightarrow> 0) + sum_list (map weight stk1)
           < weight (f, l) + sum_list (map weight stk)"
proof (cases "l - f + 1 \<le> 8")
  case True
  with assms show ?thesis by (auto simp: iteration_def weight_def)
next
  case False
  obtain i j s' where p: "partitionRange cmp (intExpr (intExpr s (l - f)) (l - f + 1)) f l = (i, j, s')"
    by (metis prod_cases3)
  with False assms have d: "deferStep s' stk f l i j = (s1, stk1, nxt)"
    by (simp add: iteration_def)
  from partitionRange_index [OF p] False have "f \<le> j" "j < i" "i \<le> l + 1" by auto
  from deferStep_weight [OF d this] show ?thesis .
qed

text \<open>
  The outer \<open>for (;;)\<close> of lines 83 to 165: one iteration, then either the
  \<open>continue\<close> or the pop of lines 160 to 164, where an empty stack ends the loop.
\<close>

function quickLoop :: "'a comparator \<Rightarrow> 'a state \<Rightarrow> stack \<Rightarrow> int \<Rightarrow> int \<Rightarrow> 'a state" where
  "quickLoop cmp s stk firstElement lastElement =
     (case iteration cmp s stk firstElement lastElement of
        (s1, stk1, Some (f, t)) \<Rightarrow> quickLoop cmp s1 stk1 f t
      | (s1, stk1, None) \<Rightarrow>
          (case stk1 of
             [] \<Rightarrow> s1
           | (f, t) # rest \<Rightarrow> quickLoop cmp s1 rest f t))"
  by pat_completeness auto
termination
proof (relation "measure (\<lambda>(cmp, s, stk, f, l). weight (f, l) + sum_list (map weight stk))", goal_cases)
  case 1
  show ?case by simp
next
  case (2 cmp s stk f l s1 x stk1 nxt ft f' t')
  then show ?case using iteration_weight [of cmp s stk f l s1 stk1 nxt] by auto
next
  case (3 cmp s stk f l s1 x stk1 nxt ft f' t')
  then show ?case using iteration_weight [of cmp s stk f l s1 stk1 nxt] by auto
qed

declare quickLoop.simps [simp del]

subsection \<open>\<open>sortArray\<close> (lines 58 to 168)\<close>

text \<open>
  The result is the final array and the trace of the call, or \<open>None\<close> when the call
  never returns. A trace that holds \<open>Overflow\<close> is that of a call with undefined
  behaviour.
\<close>

definition sortArray :: "'a comparator \<Rightarrow> 'a array \<Rightarrow> int \<Rightarrow> int \<Rightarrow> bool \<Rightarrow> 'a state option" where
  "sortArray cmp array firstElement lastElement retainOrderOfEquivalentItems =
     (if lastElement > firstElement then
        (if retainOrderOfEquivalentItems then
           stableLoop cmp firstElement lastElement (array, []) firstElement
         else Some (quickLoop cmp (array, []) [] firstElement lastElement))
      else Some (array, []))"


subsection \<open>\<open>findInsertIndexInSortedArray\<close> (lines 195 to 237)\<close>

text \<open>The two ways in which the search fails to return an index.\<close>

datatype error =
    AssertionFailed  \<comment> \<open>the \<open>jassert\<close> of line 202\<close>
  | SignedOverflow   \<comment> \<open>\<open>firstElement + lastElement\<close> of line 216 is outside \<open>int\<close>\<close>

text \<open>
  The \<open>while\<close> loop of lines 207 to 234. Besides the final \<open>firstElement\<close> it returns
  the search path: the indices whose cells were compared with \<open>newElement\<close>, in order.
\<close>

function findLoop ::
  "'a comparator \<Rightarrow> 'a array \<Rightarrow> 'a \<Rightarrow> int \<Rightarrow> int \<Rightarrow> int list \<Rightarrow> error + int \<times> int list" where
  "findLoop cmp array newElement firstElement lastElement path =
     (if firstElement < lastElement then
        (if cmp newElement (array firstElement) = 0
         then Inr (firstElement + 1, path @ [firstElement])
         else if firstElement + lastElement < - 2147483648 \<or>
                 2147483647 < firstElement + lastElement
         then Inl SignedOverflow
         else
           (let halfway = (firstElement + lastElement) div 2 in
            if halfway = firstElement then
              (if cmp newElement (array halfway) \<ge> 0
               then Inr (firstElement + 1, path @ [firstElement, halfway])
               else Inr (firstElement, path @ [firstElement, halfway]))
            else if cmp newElement (array halfway) \<ge> 0
            then findLoop cmp array newElement halfway lastElement
                   (path @ [firstElement, halfway])
            else findLoop cmp array newElement firstElement halfway
                   (path @ [firstElement, halfway])))
      else Inr (firstElement, path))"
  by pat_completeness auto
termination
  by (relation "measure (\<lambda>(cmp, array, newElement, firstElement, lastElement, path).
        nat (lastElement - firstElement))") auto

declare findLoop.simps [simp del]

text \<open>
  Modelled from the spec: the macro \<open>jassert\<close> is not defined in the header; the spec
  has it check \<open>firstElement <= lastElement\<close> in debug builds. A failed assertion is
  the error \<open>AssertionFailed\<close>.
\<close>

definition findInsertIndexInSortedArray ::
  "'a comparator \<Rightarrow> 'a array \<Rightarrow> 'a \<Rightarrow> int \<Rightarrow> int \<Rightarrow> error + int \<times> int list" where
  "findInsertIndexInSortedArray cmp array newElement firstElement lastElement =
     (if firstElement \<le> lastElement
      then findLoop cmp array newElement firstElement lastElement []
      else Inl AssertionFailed)"

subsection \<open>Concrete arrays and comparators\<close>

text \<open>The array that holds the elements of \<open>xs\<close> from index 0 on.\<close>

definition ofList :: "'a list \<Rightarrow> 'a array" where
  "ofList xs i = xs ! nat i"

text \<open>\<open>DefaultElementComparator<int>\<close>.\<close>

definition naturalOrder :: "int comparator" where
  "naturalOrder = compareElements (<)"

text \<open>A comparator of pairs that looks at the first component only.\<close>

definition compareByFirst :: "(int \<times> char) comparator" where
  "compareByFirst p q = naturalOrder (fst p) (fst q)"

text \<open>Two arrays with cells at every index: all 0, and 0 below \<open>2^30 + 5\<close> with 5 from there on.\<close>

definition zeros :: "int array" where
  "zeros i = 0"

definition stairs :: "int array" where
  "stairs i = (if i < 1073741829 then 0 else 5)"

text \<open>
  A comparator that breaks the contract below: it reports every element to come after
  every element.
\<close>

definition alwaysAfter :: "int comparator" where
  "alwaysAfter x y = 1"

subsection \<open>The vocabulary of the claims\<close>

text \<open>
  The three-way contract that the header asks of \<open>compareElements\<close>: a positive result
  one way round is a negative result the other way round, and "not after" is
  transitive. Then 0 both ways round is an equivalence.
\<close>

definition consistent :: "'a comparator \<Rightarrow> bool" where
  "consistent cmp =
     ((\<forall>x y. cmp x y > 0 \<longleftrightarrow> cmp y x < 0) \<and>
      (\<forall>x y z. cmp x y \<le> 0 \<and> cmp y z \<le> 0 \<longrightarrow> cmp x z \<le> 0))"

text \<open>The part of the contract that the order-retaining loop needs in order to end.\<close>

definition antisymmetric :: "'a comparator \<Rightarrow> bool" where
  "antisymmetric cmp = (\<forall>x y. cmp x y > 0 \<longrightarrow> \<not> cmp y x > 0)"

text \<open>Every cell from \<open>f\<close> to \<open>l - 1\<close> is not after its successor.\<close>

definition sortedRange :: "'a comparator \<Rightarrow> 'a array \<Rightarrow> int \<Rightarrow> int \<Rightarrow> bool" where
  "sortedRange cmp a f l = (\<forall>i. f \<le> i \<and> i < l \<longrightarrow> cmp (a i) (a (i + 1)) \<le> 0)"


text \<open>
  The ranges of the non-retaining sort in which no \<open>int\<close> expression overflows: the
  first index is above \<open>-2^31\<close>, the last one below \<open>2^31 - 1\<close>, and the number of
  cells is an \<open>int\<close>.
\<close>

definition indexRange :: "int \<Rightarrow> int \<Rightarrow> bool" where
  "indexRange f l = (- 2147483648 < f \<and> l < 2147483647 \<and> l - f + 1 \<le> 2147483647)"

text \<open>The ranges of the search in which \<open>firstElement + lastElement\<close> cannot overflow.\<close>

definition searchRange :: "int \<Rightarrow> int \<Rightarrow> bool" where
  "searchRange f l = (- 1073741824 \<le> f \<and> l \<le> 1073741824)"

text \<open>The call reached a signed overflow.\<close>

definition overflows :: "'a state option \<Rightarrow> bool" where
  "overflows r = (case r of None \<Rightarrow> False | Some s \<Rightarrow> Overflow \<in> set (snd s))"

text \<open>The number of cells of a range.\<close>

definition cellCount :: "int \<times> int \<Rightarrow> int" where
  "cellCount r = snd r - fst r + 1"

text \<open>
  The contents of the cells \<open>f\<close> to \<open>l\<close> after a call, and \<open>None\<close> for a call that never
  returns.
\<close>

definition snapshot :: "'a state option \<Rightarrow> int \<Rightarrow> int \<Rightarrow> 'a list option" where
  "snapshot r f l = map_option (\<lambda>s. map (fst s) [f..l]) r"

section \<open>Permutations of a set of cells\<close>

text \<open>
  \<open>elems a S\<close> is the multiset of the contents of the cells \<open>S\<close>.
  \<open>permutedOn S a a'\<close>: the array \<open>a'\<close> holds in the cells \<open>S\<close> the elements that \<open>a\<close>
  holds there, in some order, and every other cell is the same in both.
\<close>

definition elems :: "'a array \<Rightarrow> int set \<Rightarrow> 'a multiset" where
  "elems a S = image_mset a (mset_set S)"

lemma elems_range: "elems a {f..l} = mset (map a [f..l])"
proof -
  have "mset_set (set [f..l]) = mset [f..l]" by (rule mset_set_set) simp
  then show ?thesis by (simp add: elems_def)
qed

lemma elems_Un: "finite S \<Longrightarrow> finite T \<Longrightarrow> S \<inter> T = {} \<Longrightarrow> elems a (S \<union> T) = elems a S + elems a T"
  by (simp add: elems_def mset_set_Union)

lemma elems_cong: "(\<And>k. k \<in> S \<Longrightarrow> a' k = a k) \<Longrightarrow> elems a' S = elems a S"
  unfolding elems_def by (cases "finite S") (auto intro: image_mset_cong)

lemma elems_member: "finite S \<Longrightarrow> x \<in># elems a S \<longleftrightarrow> (\<exists>k\<in>S. x = a k)"
  by (auto simp: elems_def)

definition permutedOn :: "int set \<Rightarrow> 'a array \<Rightarrow> 'a array \<Rightarrow> bool" where
  "permutedOn S a a' = ((\<forall>k. k \<notin> S \<longrightarrow> a' k = a k) \<and> elems a' S = elems a S)"

lemma permutedOn_refl: "permutedOn S a a"
  by (simp add: permutedOn_def)

lemma permutedOn_trans: "permutedOn S a b \<Longrightarrow> permutedOn S b c \<Longrightarrow> permutedOn S a c"
  by (simp add: permutedOn_def)

lemma elems_split:
  assumes "finite U" "S \<subseteq> U"
  shows "elems a U = elems a S + elems a (U - S)"
proof -
  have "finite S" "finite (U - S)" "S \<inter> (U - S) = {}"
    using assms by (auto intro: finite_subset)
  then have "elems a (S \<union> (U - S)) = elems a S + elems a (U - S)"
    by (rule elems_Un)
  moreover have "S \<union> (U - S) = U" using assms by auto
  ultimately show ?thesis by simp
qed

lemma permutedOn_mono:
  assumes "finite U" "S \<subseteq> U" "permutedOn S a a'"
  shows "permutedOn U a a'"
proof -
  have "elems a' (U - S) = elems a (U - S)"
    using assms(3) by (intro elems_cong) (simp add: permutedOn_def)
  moreover have "elems a' S = elems a S" using assms(3) by (simp add: permutedOn_def)
  ultimately have "elems a' U = elems a U"
    by (simp add: elems_split [OF assms(1,2)])
  moreover have "\<forall>k. k \<notin> U \<longrightarrow> a' k = a k" using assms by (auto simp: permutedOn_def)
  ultimately show ?thesis by (simp add: permutedOn_def)
qed

lemma permutedOn_swap:
  assumes "finite S" "i \<in> S" "j \<in> S"
  shows "permutedOn S a (a(i := a j, j := a i))"
proof -
  let ?p = "\<lambda>k. if k = i then j else if k = j then i else k"
  have eq: "a(i := a j, j := a i) = a \<circ> ?p"
    by (auto simp: fun_eq_iff)
  have "inj_on ?p S" by (auto simp: inj_on_def)
  then have "image_mset ?p (mset_set S) = mset_set (?p ` S)"
    by (rule image_mset_mset_set)
  also have "?p ` S = S" using assms(2,3)
    by (auto simp: image_iff)
  finally have "image_mset (a \<circ> ?p) (mset_set S) = image_mset a (mset_set S)"
    by (simp add: multiset.map_comp [symmetric])
  with eq have "elems (a(i := a j, j := a i)) S = elems a S" by (simp add: elems_def)
  moreover have "\<forall>k. k \<notin> S \<longrightarrow> (a(i := a j, j := a i)) k = a k" using assms by auto
  ultimately show ?thesis by (simp add: permutedOn_def)
qed

lemma permutedOn_elem:
  assumes "finite S" "permutedOn S a a'" "k \<in> S"
  shows "\<exists>m\<in>S. a' k = a m"
proof -
  have "a' k \<in># elems a' S" using assms by (auto simp: elems_member)
  with assms have "a' k \<in># elems a S" by (simp add: permutedOn_def)
  with assms show ?thesis by (simp add: elems_member)
qed

section \<open>What a call touches\<close>

text \<open>
  \<open>arrayEvent f l e\<close>: the event \<open>e\<close> is a comparator call or a swap on two cells of
  the range \<open>f\<close> to \<open>l\<close>. \<open>extends P s t\<close>: the trace of \<open>t\<close> is the trace of \<open>s\<close> followed
  by events that satisfy \<open>P\<close>. \<open>within f l s t\<close>: from \<open>s\<close> to \<open>t\<close> the cells \<open>f\<close> to \<open>l\<close>
  were permuted, every other cell was left alone, only cells of that range were
  compared or swapped, and no \<open>Overflow\<close> was recorded.
\<close>

fun arrayEvent :: "int \<Rightarrow> int \<Rightarrow> event \<Rightarrow> bool" where
  "arrayEvent f l (Compare i j) = (f \<le> i \<and> i \<le> l \<and> f \<le> j \<and> j \<le> l)"
| "arrayEvent f l (Swap i j) = (f \<le> i \<and> i \<le> l \<and> f \<le> j \<and> j \<le> l)"
| "arrayEvent f l (Push k b c) = False"
| "arrayEvent f l Overflow = False"

definition extends :: "(event \<Rightarrow> bool) \<Rightarrow> 'a state \<Rightarrow> 'a state \<Rightarrow> bool" where
  "extends P s s' = (\<exists>ev. snd s' = snd s @ ev \<and> (\<forall>e\<in>set ev. P e))"

definition within :: "int \<Rightarrow> int \<Rightarrow> 'a state \<Rightarrow> 'a state \<Rightarrow> bool" where
  "within f l s s' = (permutedOn {f..l} (fst s) (fst s') \<and> extends (arrayEvent f l) s s')"

lemma extends_refl: "extends P s s"
  by (simp add: extends_def)

lemma extends_trans: "extends P s s1 \<Longrightarrow> extends P s1 s2 \<Longrightarrow> extends P s s2"
  by (auto simp: extends_def)

lemma extends_mono: "extends P s s' \<Longrightarrow> (\<And>e. P e \<Longrightarrow> Q e) \<Longrightarrow> extends Q s s'"
  by (auto simp: extends_def)

lemma extends_one: "snd s' = snd s @ [e] \<Longrightarrow> P e \<Longrightarrow> extends P s s'"
  by (simp add: extends_def)

lemma arrayEvent_mono: "arrayEvent f' l' e \<Longrightarrow> f \<le> f' \<Longrightarrow> l' \<le> l \<Longrightarrow> arrayEvent f l e"
  by (cases e) auto

lemma within_refl: "within f l s s"
  by (simp add: within_def permutedOn_refl extends_refl)

lemma within_trans: "within f l s s1 \<Longrightarrow> within f l s1 s2 \<Longrightarrow> within f l s s2"
  by (auto simp: within_def intro: permutedOn_trans extends_trans)

lemma within_mono:
  assumes "within f' l' s s'" "f \<le> f'" "l' \<le> l"
  shows "within f l s s'"
proof -
  have "{f'..l'} \<subseteq> {f..l}" using assms by auto
  moreover have "permutedOn {f'..l'} (fst s) (fst s')" using assms(1) by (simp add: within_def)
  ultimately have "permutedOn {f..l} (fst s) (fst s')"
    using permutedOn_mono [of "{f..l}" "{f'..l'}"] by simp
  moreover have "extends (arrayEvent f l) s s'"
    using assms by (auto simp: within_def intro: extends_mono arrayEvent_mono)
  ultimately show ?thesis by (simp add: within_def)
qed

lemma compareAt_eq:
  "compareAt cmp s i j = (cmp (fst s i) (fst s j), (fst s, snd s @ [Compare i j]))"
  by (simp add: compareAt_def split_beta)

lemma swapVariables_eq:
  "swapVariables s i j = ((fst s)(i := fst s j, j := fst s i), snd s @ [Swap i j])"
  by (simp add: swapVariables_def split_beta)

lemma within_compareAt:
  assumes "f \<le> i" "i \<le> l" "f \<le> j" "j \<le> l"
  shows "within f l s (snd (compareAt cmp s i j))"
  using assms by (simp add: compareAt_eq within_def permutedOn_refl extends_def)

lemma within_swapVariables:
  assumes "f \<le> i" "i \<le> l" "f \<le> j" "j \<le> l"
  shows "within f l s (swapVariables s i j)"
  using assms by (simp add: swapVariables_eq within_def permutedOn_swap extends_def)

text \<open>
  The scans only read. In a range whose indices are above \<open>-2^31\<close> and below
  \<open>2^31 - 1\<close> their increments stay in \<open>int\<close>.
\<close>

lemma maxScan_reads:
  "maxScan cmp s m k j = (m', s') \<Longrightarrow> f \<le> m \<Longrightarrow> m \<le> l \<Longrightarrow> f \<le> k \<Longrightarrow> j \<le> l \<Longrightarrow>
     - 2147483648 \<le> f \<Longrightarrow> l < 2147483647 \<Longrightarrow>
     fst s' = fst s \<and> within f l s s' \<and> (m' = m \<or> (k \<le> m' \<and> m' \<le> j))"
proof (induction cmp s m k j rule: maxScan.induct)
  case (1 cmp s m k j)
  show ?case
  proof (cases "k \<le> j")
    case True
    let ?c = "cmp (fst s k) (fst s m)" and ?s = "(fst s, snd s @ [Compare k m])"
    have c: "(?c, ?s) = compareAt cmp s k m" by (simp add: compareAt_eq)
    have fit: "intExpr ?s (k + 1) = ?s" using True "1.prems" by (intro intExpr_in) auto
    from True "1.prems"(1)
    have run: "maxScan cmp (intExpr ?s (k + 1)) (if ?c > 0 then k else m) (k + 1) j = (m', s')"
      by (subst (asm) maxScan.simps) (simp add: compareAt_eq)
    from "1.prems" True have "within f l s ?s"
      using within_compareAt [of f k l m s cmp] by (simp add: compareAt_eq)
    moreover from "1.IH" [OF True c run] "1.prems" True
    have "fst s' = fst s \<and> within f l ?s s' \<and>
        (m' = (if ?c > 0 then k else m) \<or> (k + 1 \<le> m' \<and> m' \<le> j))"
      by (simp add: fit)
    ultimately show ?thesis using True by (auto intro: within_trans split: if_splits)
  next
    case False
    with "1.prems" show ?thesis by (subst (asm) maxScan.simps) (simp add: within_refl)
  qed
qed

lemma selectionLoop_within:
  "f \<le> lo \<Longrightarrow> j \<le> l \<Longrightarrow> - 2147483648 \<le> f \<Longrightarrow> l < 2147483647 \<Longrightarrow>
     within f l s (selectionLoop cmp lo s j)"
proof (induction cmp lo s j rule: selectionLoop.induct)
  case (1 cmp lo s j)
  show ?case
  proof (cases "j > lo")
    case True
    obtain m s1 where ms: "maxScan cmp s lo (lo + 1) j = (m, s1)"
      by (cases "maxScan cmp s lo (lo + 1) j")
    from maxScan_reads [OF ms, of f l] "1.prems" True
    have m: "within f l s s1" "lo \<le> m" "m \<le> j" by auto
    have "within f l s1 (swapVariables s1 j m)"
      using "1.prems" True m by (intro within_swapVariables) auto
    moreover from "1.IH" [OF True ms [symmetric]] "1.prems"
    have "within f l (swapVariables s1 j m) (selectionLoop cmp lo (swapVariables s1 j m) (j - 1))"
      by simp
    moreover have "selectionLoop cmp lo s j = selectionLoop cmp lo (swapVariables s1 j m) (j - 1)"
      using True ms by (subst selectionLoop.simps) simp
    ultimately show ?thesis using m(1) by (auto intro: within_trans)
  next
    case False
    then show ?thesis by (subst selectionLoop.simps) (simp add: within_refl)
  qed
qed


lemma scanUp_reads:
  "scanUp cmp lo hi s i = (i1, s1) \<Longrightarrow> f \<le> lo \<Longrightarrow> lo \<le> i \<Longrightarrow> i \<le> hi \<Longrightarrow> hi \<le> l \<Longrightarrow>
     - 2147483648 \<le> f \<Longrightarrow> l < 2147483647 \<Longrightarrow>
     fst s1 = fst s \<and> within f l s s1"
proof (induction cmp lo hi s i rule: scanUp.induct)
  case (1 cmp lo hi s i)
  have fit: "intExpr s (i + 1) = s" using "1.prems" by (intro intExpr_in) auto
  show ?case
  proof (cases "i + 1 \<le> hi")
    case True
    let ?c = "cmp (fst s (i + 1)) (fst s lo)" and ?s = "(fst s, snd s @ [Compare (i + 1) lo])"
    have c: "(?c, ?s) = compareAt cmp (intExpr s (i + 1)) (i + 1) lo"
      by (simp add: compareAt_eq fit)
    have w: "within f l s ?s"
      using "1.prems" True within_compareAt [of f "i + 1" l lo s cmp] by (simp add: compareAt_eq)
    show ?thesis
    proof (cases "?c \<le> 0")
      case le: True
      from True le "1.prems"(1) have run: "scanUp cmp lo hi ?s (i + 1) = (i1, s1)"
        by (subst (asm) scanUp.simps) (simp add: compareAt_eq fit)
      from "1.IH" [OF refl True c le run] True "1.prems"
      have "fst s1 = fst s \<and> within f l ?s s1" by simp
      with w show ?thesis by (auto intro: within_trans)
    next
      case False
      with True "1.prems"(1) have "s1 = ?s"
        by (subst (asm) scanUp.simps) (auto simp: compareAt_eq fit)
      with w show ?thesis by simp
    qed
  next
    case False
    with "1.prems" show ?thesis by (subst (asm) scanUp.simps) (simp add: within_refl fit)
  qed
qed

lemma scanDown_reads:
  "scanDown cmp lo s j = (j1, s1) \<Longrightarrow> f \<le> lo \<Longrightarrow> j \<le> l + 1 \<Longrightarrow>
     fst s1 = fst s \<and> within f l s s1"
proof (induction cmp lo s j rule: scanDown.induct)
  case (1 cmp lo s j)
  show ?case
  proof (cases "j - 1 > lo")
    case True
    let ?c = "cmp (fst s (j - 1)) (fst s lo)" and ?s = "(fst s, snd s @ [Compare (j - 1) lo])"
    have c: "(?c, ?s) = compareAt cmp s (j - 1) lo" by (simp add: compareAt_eq)
    have w: "within f l s ?s"
      using "1.prems" True within_compareAt [of f "j - 1" l lo s cmp] by (simp add: compareAt_eq)
    show ?thesis
    proof (cases "?c \<ge> 0")
      case ge: True
      from True ge "1.prems"(1) have run: "scanDown cmp lo ?s (j - 1) = (j1, s1)"
        by (subst (asm) scanDown.simps) (simp add: compareAt_eq)
      from "1.IH" [OF True c ge run] "1.prems" have "fst s1 = fst s \<and> within f l ?s s1" by simp
      with w show ?thesis by (auto intro: within_trans)
    next
      case False
      with True "1.prems"(1) have "s1 = ?s"
        by (subst (asm) scanDown.simps) (auto simp: compareAt_eq)
      with w show ?thesis by simp
    qed
  next
    case False
    with "1.prems" show ?thesis by (subst (asm) scanDown.simps) (simp add: within_refl)
  qed
qed

lemma partitionLoop_within:
  "partitionLoop cmp lo hi s i j = (i', j', s') \<Longrightarrow> f \<le> lo \<Longrightarrow> hi \<le> l \<Longrightarrow>
     lo \<le> i \<Longrightarrow> i \<le> hi \<Longrightarrow> lo < j \<Longrightarrow> j \<le> hi + 1 \<Longrightarrow>
     - 2147483648 \<le> f \<Longrightarrow> l < 2147483647 \<Longrightarrow> within f l s s'"
proof (induction cmp lo hi s i j rule: partitionLoop.induct)
  case (1 cmp lo hi s i j)
  obtain i1 s1 where up: "scanUp cmp lo hi s i = (i1, s1)"
    by (cases "scanUp cmp lo hi s i")
  obtain j1 s2 where down: "scanDown cmp lo s1 j = (j1, s2)"
    by (cases "scanDown cmp lo s1 j")
  from scanUp_index [OF up] "1.prems" have i1: "i < i1" "i1 \<le> hi + 1" by auto
  from scanDown_index [OF down] "1.prems" have j1: "j1 < j" "lo \<le> j1" by auto
  from scanUp_reads [OF up, of f l] "1.prems" have w1: "within f l s s1" by simp
  from scanDown_reads [OF down, of f l] "1.prems" have w2: "within f l s1 s2" by simp
  show ?case
  proof (cases "j1 < i1")
    case True
    with up down "1.prems"(1) have "s' = s2"
      by (subst (asm) partitionLoop.simps) simp
    with w1 w2 show ?thesis by (auto intro: within_trans)
  next
    case False
    with up down "1.prems"(1)
    have run: "partitionLoop cmp lo hi (swapVariables s2 i1 j1) i1 j1 = (i', j', s')"
      by (subst (asm) partitionLoop.simps) simp
    have "within f l s2 (swapVariables s2 i1 j1)"
      using False i1 j1 "1.prems" by (intro within_swapVariables) auto
    moreover from "1.IH" [OF up [symmetric] down [symmetric] False run] False i1 j1 "1.prems"
    have "within f l (swapVariables s2 i1 j1) s'" by simp
    ultimately show ?thesis using w1 w2 by (blast intro: within_trans)
  qed
qed

lemma partitionRange_within:
  assumes "partitionRange cmp s lo hi = (i, j, s')" "lo < hi" "f \<le> lo" "hi \<le> l"
    and "- 2147483648 \<le> f" "l < 2147483647"
  shows "within f l s s'"
proof -
  let ?mid = "lo + (hi - lo + 1) div 2"
  let ?s1 = "swapVariables s ?mid lo"
  have fit: "intExpr ?s1 (hi + 1) = ?s1" using assms by (intro intExpr_in) auto
  obtain i0 j0 s0 where p: "partitionLoop cmp lo hi ?s1 lo (hi + 1) = (i0, j0, s0)"
    by (metis prod_cases3)
  with assms(1) have eq: "i = i0" "j = j0" "s' = swapVariables s0 j0 lo"
    by (auto simp: partitionRange_def Let_def fit)
  from partitionLoop_index [OF p] assms(2) have j0: "lo \<le> j0" "j0 < i0" "i0 \<le> hi + 1" by auto
  have "within f l s ?s1" using assms by (intro within_swapVariables) auto
  moreover have "within f l ?s1 s0" using partitionLoop_within [OF p, of f l] assms by simp
  moreover have "within f l s0 (swapVariables s0 j0 lo)"
    using assms j0 by (intro within_swapVariables) auto
  ultimately show ?thesis using eq by (blast intro: within_trans)
qed

section \<open>The outer loop as a list of ranges to do\<close>

text \<open>
  At the head of an iteration of the outer loop the work still to do is the current
  range followed by the ranges on the stack. \<open>runPending\<close> is the loop seen from there;
  with no range left it has ended.
\<close>

fun runPending :: "'a comparator \<Rightarrow> 'a state \<Rightarrow> stack \<Rightarrow> 'a state" where
  "runPending cmp s [] = s"
| "runPending cmp s ((f, t) # rest) = quickLoop cmp s rest f t"

text \<open>
  The sub-ranges that an iteration leaves to do after partitioning at \<open>i\<close> and \<open>j\<close>: the
  one the loop continues with first, and no range of fewer than two cells.
\<close>

definition deferred :: "int \<Rightarrow> int \<Rightarrow> int \<Rightarrow> int \<Rightarrow> stack" where
  "deferred f l i j =
     filter (\<lambda>r. fst r < snd r)
       (if j - 1 - f \<ge> l - i then [(i, l), (f, j - 1)] else [(f, j - 1), (i, l)])"

lemma quickLoop_unfold:
  "quickLoop cmp s stk f l =
     (case iteration cmp s stk f l of
        (s1, stk1, nxt) \<Rightarrow> runPending cmp s1 (case nxt of Some r \<Rightarrow> r # stk1 | None \<Rightarrow> stk1))"
  by (subst quickLoop.simps) (auto split: prod.splits option.splits list.splits)

lemma runPending_small:
  "l - f + 1 \<le> 8 \<Longrightarrow>
     runPending cmp s ((f, l) # stk) =
       runPending cmp (selectionLoop cmp f (intExpr (intExpr s (l - f)) (l - f + 1)) l) stk"
  by (simp add: quickLoop_unfold iteration_def)

lemma deferStep_pending:
  "deferStep s stk f l i j = (s1, stk1, nxt) \<Longrightarrow>
     (case nxt of Some r \<Rightarrow> r # stk1 | None \<Rightarrow> stk1) = deferred f l i j @ stk"
  by (auto simp: deferStep_def deferred_def push_def split: if_splits prod.splits)

lemma deferStep_state:
  "deferStep s stk f l i j = (s1, stk1, nxt) \<Longrightarrow>
     fst s1 = fst s \<and>
     (snd s1 = snd s \<or>
      (\<exists>b c. snd s1 = snd s @ [Push (int (length stk)) b c] \<and> b < c \<and> (b, c) \<in> set (deferred f l i j)))"
  by (auto simp: deferStep_def deferred_def push_def split: if_splits prod.splits)

lemma runPending_large:
  assumes "\<not> l - f + 1 \<le> 8"
    and "partitionRange cmp (intExpr (intExpr s (l - f)) (l - f + 1)) f l = (i, j, s0)"
  shows "runPending cmp s ((f, l) # stk) =
           runPending cmp (fst (deferStep s0 stk f l i j)) (deferred f l i j @ stk)"
proof -
  obtain s1 stk1 nxt where d: "deferStep s0 stk f l i j = (s1, stk1, nxt)"
    by (metis prod_cases3)
  with assms have "iteration cmp s stk f l = (s1, stk1, nxt)"
    by (simp add: iteration_def)
  then show ?thesis using d deferStep_pending [OF d] by (simp add: quickLoop_unfold)
qed

lemma deferred_weight:
  assumes "f \<le> j" "j < i" "i \<le> l + 1"
  shows "sum_list (map weight (deferred f l i j)) < weight (f, l)"
  using assms by (auto simp: deferred_def weight_def)

lemma deferred_range: "r \<in> set (deferred f l i j) \<Longrightarrow> f \<le> j \<Longrightarrow> j < i \<Longrightarrow> i \<le> l + 1 \<Longrightarrow> 
   f \<le> fst r \<and> fst r < snd r \<and> snd r \<le> l"
  by (auto simp: deferred_def split: if_splits)

lemma runPending_induct [case_names finished small large]:
  assumes "\<And>s. P s []"
    and "\<And>s f l stk. l - f + 1 \<le> 8 \<Longrightarrow>
           P (selectionLoop cmp f (intExpr (intExpr s (l - f)) (l - f + 1)) l) stk \<Longrightarrow>
           P s ((f, l) # stk)"
    and "\<And>s f l stk i j s0. \<not> l - f + 1 \<le> 8 \<Longrightarrow>
           partitionRange cmp (intExpr (intExpr s (l - f)) (l - f + 1)) f l = (i, j, s0) \<Longrightarrow>
           f \<le> j \<Longrightarrow> j < i \<Longrightarrow> i \<le> l + 1 \<Longrightarrow>
           P (fst (deferStep s0 stk f l i j)) (deferred f l i j @ stk) \<Longrightarrow> P s ((f, l) # stk)"
  shows "P s pending"
proof (induction "sum_list (map weight pending)" arbitrary: s pending rule: less_induct)
  case less
  show ?case
  proof (cases pending)
    case Nil
    then show ?thesis by (simp add: assms(1))
  next
    case (Cons r stk)
    obtain f l where r: "r = (f, l)" by (cases r)
    show ?thesis
    proof (cases "l - f + 1 \<le> 8")
      case True
      have "sum_list (map weight stk) < sum_list (map weight pending)"
        by (simp add: Cons weight_def)
      then have "P (selectionLoop cmp f (intExpr (intExpr s (l - f)) (l - f + 1)) l) stk"
        by (rule less)
      with True show ?thesis unfolding Cons r by (rule assms(2))
    next
      case False
      obtain i j s0
        where p: "partitionRange cmp (intExpr (intExpr s (l - f)) (l - f + 1)) f l = (i, j, s0)"
        by (metis prod_cases3)
      from partitionRange_index [OF p] False have ij: "f \<le> j" "j < i" "i \<le> l + 1" by auto
      have "sum_list (map weight (deferred f l i j @ stk)) < sum_list (map weight pending)"
        using deferred_weight [OF ij] by (simp add: Cons r)
      then have "P (fst (deferStep s0 stk f l i j)) (deferred f l i j @ stk)" by (rule less)
      with False p ij show ?thesis unfolding Cons r by (rule assms(3))
    qed
  qed
qed

text \<open>
  \<open>loopWithin\<close> is \<open>within\<close> for the outer loop, whose trace holds the writes to the
  stack as well.
\<close>

fun isPush :: "event \<Rightarrow> bool" where
  "isPush (Push k b c) = True"
| "isPush e = False"

definition loopEvent :: "int \<Rightarrow> int \<Rightarrow> event \<Rightarrow> bool" where
  "loopEvent f l e = (arrayEvent f l e \<or> isPush e)"

definition loopWithin :: "int \<Rightarrow> int \<Rightarrow> 'a state \<Rightarrow> 'a state \<Rightarrow> bool" where
  "loopWithin f l s s' =
     (permutedOn {f..l} (fst s) (fst s') \<and> extends (loopEvent f l) s s')"

lemma loopWithin_refl: "loopWithin f l s s"
  by (simp add: loopWithin_def permutedOn_refl extends_refl)

lemma loopWithin_trans: "loopWithin f l s s1 \<Longrightarrow> loopWithin f l s1 s2 \<Longrightarrow> loopWithin f l s s2"
  by (auto simp: loopWithin_def intro: permutedOn_trans extends_trans)

lemma within_loopWithin:
  assumes "within f' l' s s'" "f \<le> f'" "l' \<le> l"
  shows "loopWithin f l s s'"
proof -
  from assms have "within f l s s'" by (rule within_mono)
  then show ?thesis
    by (auto simp: within_def loopWithin_def loopEvent_def intro: extends_mono)
qed

lemma deferStep_loopWithin:
  assumes "deferStep s stk f l i j = (s1, stk1, nxt)"
  shows "loopWithin f' l' s s1"
proof -
  from deferStep_state [OF assms]
  have "fst s1 = fst s" and "extends (loopEvent f' l') s s1"
    by (auto simp: extends_def loopEvent_def)
  then show ?thesis by (simp add: loopWithin_def permutedOn_refl)
qed

text \<open>
  \<open>framed f l pending\<close>: the ranges to do lie in the range \<open>f\<close> to \<open>l\<close>, which is one
  whose index expressions stay in \<open>int\<close>, and none of them is empty.
\<close>

definition framed :: "int \<Rightarrow> int \<Rightarrow> stack \<Rightarrow> bool" where
  "framed f l pending =
     (indexRange f l \<and> (\<forall>r\<in>set pending. f \<le> fst r \<and> fst r \<le> snd r \<and> snd r \<le> l))"

lemma framed_head:
  assumes "framed f l ((lo, hi) # stk)"
  shows "f \<le> lo" "lo \<le> hi" "hi \<le> l" "- 2147483648 \<le> lo" "hi < 2147483647"
    "intExpr (intExpr s (hi - lo)) (hi - lo + 1) = s" "framed f l stk"
proof -
  from assms show b: "f \<le> lo" "lo \<le> hi" "hi \<le> l" "- 2147483648 \<le> lo" "hi < 2147483647"
    by (auto simp: framed_def indexRange_def)
  from assms show "framed f l stk" by (simp add: framed_def)
  from assms have "hi - lo + 1 \<le> 2147483647" by (auto simp: framed_def indexRange_def)
  with b(2) show "intExpr (intExpr s (hi - lo)) (hi - lo + 1) = s"
    by (simp add: intExpr_in)
qed

lemma framed_deferred:
  assumes "framed f l ((lo, hi) # stk)" "lo \<le> j" "j < i" "i \<le> hi + 1"
  shows "framed f l (deferred lo hi i j @ stk)"
  using assms deferred_range [OF _ assms(2,3,4)] unfolding framed_def by fastforce

lemma runPending_loopWithin:
  "framed f l pending \<longrightarrow> loopWithin f l s (runPending cmp s pending)"
proof (induction s pending rule: runPending_induct [where cmp = cmp])
  case (finished s)
  show ?case by (simp add: loopWithin_refl)
next
  case (small s lo hi stk)
  show ?case
  proof
    assume r: "framed f l ((lo, hi) # stk)"
    note h = framed_head [OF r]
    have "within lo hi s (selectionLoop cmp lo s hi)"
      using h(4,5) by (intro selectionLoop_within) simp_all
    with h(1,3) have "loopWithin f l s (selectionLoop cmp lo s hi)"
      by (intro within_loopWithin) auto
    moreover from small(2) [unfolded h(6)] h(7)
    have "loopWithin f l (selectionLoop cmp lo s hi) (runPending cmp (selectionLoop cmp lo s hi) stk)"
      by simp
    ultimately show "loopWithin f l s (runPending cmp s ((lo, hi) # stk))"
      unfolding runPending_small [OF small(1), unfolded h(6)] by (rule loopWithin_trans)
  qed
next
  case (large s lo hi stk i j s0)
  show ?case
  proof
    assume r: "framed f l ((lo, hi) # stk)"
    note h = framed_head [OF r]
    let ?s1 = "fst (deferStep s0 stk lo hi i j)"
    from large(1) have lt: "lo < hi" by simp
    from partitionRange_within [OF large(2) [unfolded h(6)] lt, of lo hi] h(4,5)
    have "within lo hi s s0" by simp
    with h(1,3) have "loopWithin f l s s0" by (intro within_loopWithin) auto
    moreover have "loopWithin f l s0 ?s1"
      by (rule deferStep_loopWithin [of s0 stk lo hi i j _ "fst (snd (deferStep s0 stk lo hi i j))"
            "snd (snd (deferStep s0 stk lo hi i j))"]) simp
    moreover from large(6) framed_deferred [OF r large(3,4,5)]
    have "loopWithin f l ?s1 (runPending cmp ?s1 (deferred lo hi i j @ stk))"
      by simp
    ultimately show "loopWithin f l s (runPending cmp s ((lo, hi) # stk))"
      unfolding runPending_large [OF large(1,2)] by (blast intro: loopWithin_trans)
  qed
qed

text \<open>
  The bound on the stack. With \<open>n\<close> ranges below it on the list (the current range
  first, then the stack from its top), a range of \<open>m\<close> cells satisfies \<open>m * 2 ^ n \<le> N\<close>.
\<close>

fun depthOK :: "int \<Rightarrow> stack \<Rightarrow> bool" where
  "depthOK N [] = True"
| "depthOK N (r # rs) = ((snd r - fst r + 1) * 2 ^ length rs \<le> N \<and> depthOK N rs)"

text \<open>An event that is a write to the stack is a write at an index from 0 to \<open>n - 1\<close>.\<close>

fun pushBelow :: "int \<Rightarrow> event \<Rightarrow> bool" where
  "pushBelow n (Push k b c) = (0 \<le> k \<and> k < n)"
| "pushBelow n e = True"

lemma depthOK_smaller:
  assumes "(m::int) * 2 ^ n \<le> N" "m' \<le> m"
  shows "m' * 2 ^ n \<le> N"
proof -
  have "m' * 2 ^ n \<le> m * 2 ^ n" using assms(2) by (intro mult_right_mono) simp_all
  with assms(1) show ?thesis by linarith
qed

lemma depthOK_half:
  assumes "(m::int) * 2 ^ n \<le> N" "2 * m' \<le> m"
  shows "m' * 2 ^ Suc n \<le> N"
proof -
  have "(2 * m') * 2 ^ n \<le> m * 2 ^ n" using assms(2) by (intro mult_right_mono) simp_all
  moreover have "m' * 2 ^ Suc n = (2 * m') * 2 ^ n" by simp
  ultimately show ?thesis using assms(1) by linarith
qed

lemma deferred_depthOK:
  assumes "depthOK N ((f, l) # stk)" "f \<le> j" "j < i" "i \<le> l + 1"
  shows "depthOK N (deferred f l i j @ stk)"
proof -
  let ?n = "length stk"
  from assms(1) have cur: "(l - f + 1) * 2 ^ ?n \<le> N" and stk: "depthOK N stk" by simp_all
  have L: "(j - 1 - f + 1) * 2 ^ ?n \<le> N"
    using assms by (intro depthOK_smaller [OF cur]) simp
  have R: "(l - i + 1) * 2 ^ ?n \<le> N"
    using assms by (intro depthOK_smaller [OF cur]) simp
  have Lh: "j - 1 - f < l - i \<Longrightarrow> (j - 1 - f + 1) * 2 ^ Suc ?n \<le> N"
    using assms by (intro depthOK_half [OF cur]) simp
  have Rh: "j - 1 - f \<ge> l - i \<Longrightarrow> (l - i + 1) * 2 ^ Suc ?n \<le> N"
    using assms by (intro depthOK_half [OF cur]) simp
  show ?thesis
    using L R Lh Rh stk by (auto simp: deferred_def)
qed

lemma push_index_bound:
  assumes "(m::int) * 2 ^ n \<le> N" "8 < m" "N < 2 ^ 31"
  shows "int n < 28"
proof (rule ccontr)
  assume "\<not> int n < 28"
  then have "(2::int) ^ 28 \<le> 2 ^ n" by (intro power_increasing) simp_all
  then have "9 * (2::int) ^ 28 \<le> m * 2 ^ n"
    using assms(2) by (intro mult_mono) simp_all
  with assms(1,3) show False by simp
qed

lemma arrayEvent_pushBelow: "arrayEvent f l e \<Longrightarrow> pushBelow n e"
  by (cases e) simp_all

lemma within_pushBelow: "within f l s s' \<Longrightarrow> extends (pushBelow n) s s'"
  unfolding within_def by (auto intro: extends_mono arrayEvent_pushBelow)

lemma runPending_depth:
  "depthOK N pending \<longrightarrow> N < 2 ^ 31 \<longrightarrow> framed f l pending \<longrightarrow>
     extends (pushBelow 28) s (runPending cmp s pending)"
proof (induction s pending rule: runPending_induct [where cmp = cmp])
  case (finished s)
  show ?case by (simp add: extends_refl)
next
  case (small s lo hi stk)
  show ?case
  proof (intro impI)
    assume d: "depthOK N ((lo, hi) # stk)" and N: "N < 2 ^ 31"
      and r: "framed f l ((lo, hi) # stk)"
    note h = framed_head [OF r]
    have "within lo hi s (selectionLoop cmp lo s hi)"
      using h(4,5) by (intro selectionLoop_within) simp_all
    then have "extends (pushBelow 28) s (selectionLoop cmp lo s hi)"
      by (rule within_pushBelow)
    moreover from small(2) [unfolded h(6)] d N h(7)
    have "extends (pushBelow 28) (selectionLoop cmp lo s hi)
        (runPending cmp (selectionLoop cmp lo s hi) stk)" by simp
    ultimately show "extends (pushBelow 28) s (runPending cmp s ((lo, hi) # stk))"
      unfolding runPending_small [OF small(1), unfolded h(6)] by (rule extends_trans)
  qed
next
  case (large s lo hi stk i j s0)
  show ?case
  proof (intro impI)
    assume d: "depthOK N ((lo, hi) # stk)" and N: "N < 2 ^ 31"
      and r: "framed f l ((lo, hi) # stk)"
    note h = framed_head [OF r]
    let ?s1 = "fst (deferStep s0 stk lo hi i j)"
    from large(1) have lt: "lo < hi" by simp
    from partitionRange_within [OF large(2) [unfolded h(6)] lt, of lo hi] h(4,5)
    have "within lo hi s s0" by simp
    then have "extends (pushBelow 28) s s0"
      by (rule within_pushBelow)
    moreover have "extends (pushBelow 28) s0 ?s1"
    proof -
      from d large(1) N have "int (length stk) < 28"
        by (intro push_index_bound [of "hi - lo + 1" _ N]) simp_all
      then show ?thesis
        using deferStep_state [of s0 stk lo hi i j ?s1 "fst (snd (deferStep s0 stk lo hi i j))"
            "snd (snd (deferStep s0 stk lo hi i j))"]
        by (auto simp: extends_def)
    qed
    moreover from deferred_depthOK [OF d large(3,4,5)] large(6) N framed_deferred [OF r large(3,4,5)]
    have "extends (pushBelow 28) ?s1 (runPending cmp ?s1 (deferred lo hi i j @ stk))" by simp
    ultimately show "extends (pushBelow 28) s (runPending cmp s ((lo, hi) # stk))"
      unfolding runPending_large [OF large(1,2)] by (blast intro: extends_trans)
  qed
qed

section \<open>The order-retaining loop\<close>

lemma stableLoop_within:
  assumes "stableLoop cmp lo hi s i = Some s'"
  shows "lo \<le> i \<longrightarrow> within lo hi s s'"
proof (rule stableLoop.raw_induct
    [where P = "\<lambda>cmp lo hi s i s'. lo \<le> i \<longrightarrow> within lo hi s s'", OF _ assms], goal_cases)
  case (1 loop cmp lo hi s i s')
  show ?case
  proof
    assume i: "lo \<le> i"
    show "within lo hi s s'"
    proof (cases "i < hi")
      case True
      let ?c = "cmp (fst s i) (fst s (i + 1))" and ?s1 = "(fst s, snd s @ [Compare i (i + 1)])"
      have w1: "within lo hi s ?s1"
        using within_compareAt [of lo i hi "i + 1" s cmp] i True by (simp add: compareAt_eq)
      show ?thesis
      proof (cases "?c > 0")
        case gt: True
        let ?s2 = "swapVariables ?s1 i (i + 1)"
        have w2: "within lo hi ?s1 ?s2" using i True by (intro within_swapVariables) auto
        from 1(2) True gt have "loop cmp lo hi ?s2 ((if i > lo then i - 2 else i) + 1) = Some s'"
          by (simp add: compareAt_eq)
        from 1(1) [OF this] i have "within lo hi ?s2 s'" by (simp split: if_splits)
        with w1 w2 show ?thesis by (blast intro: within_trans)
      next
        case False
        with 1(2) True have "loop cmp lo hi ?s1 (i + 1) = Some s'"
          by (simp add: compareAt_eq)
        from 1(1) [OF this] i have "within lo hi ?s1 s'" by simp
        with w1 show ?thesis by (blast intro: within_trans)
      qed
    next
      case False
      with 1(2) show ?thesis by (simp add: within_refl)
    qed
  qed
qed

text \<open>
  The number of pairs of positions of a list whose elements the comparator reports to
  be in the wrong order.
\<close>

fun inversions :: "'a comparator \<Rightarrow> 'a list \<Rightarrow> nat" where
  "inversions cmp [] = 0"
| "inversions cmp (x # xs) = length (filter (\<lambda>y. cmp x y > 0) xs) + inversions cmp xs"

lemma inversions_swap:
  assumes "cmp x y > 0" "\<not> cmp y x > 0"
  shows "inversions cmp (pre @ y # x # post) < inversions cmp (pre @ x # y # post)"
  using assms by (induction pre) auto

lemma view_split:
  assumes "lo \<le> i" "i < hi"
  shows "map a [lo..hi] = map a [lo..i - 1] @ a i # a (i + 1) # map a [i + 2..hi]"
proof -
  have "[lo..hi] = [lo..i - 1] @ i # [i + 1..hi]" using assms by (intro upto_split3) simp_all
  moreover have "[i + 1..hi] = (i + 1) # [i + 1 + 1..hi]" using assms by (intro upto_rec1) simp
  ultimately show ?thesis by (simp add: add.commute)
qed

lemma view_swapped:
  assumes "lo \<le> i" "i < hi"
  shows "map (a(i := a (i + 1), i + 1 := a i)) [lo..hi] =
           map a [lo..i - 1] @ a (i + 1) # a i # map a [i + 2..hi]"
proof -
  let ?b = "a(i := a (i + 1), i + 1 := a i)"
  have "map ?b [lo..i - 1] = map a [lo..i - 1]" by (intro map_cong) auto
  moreover have "map ?b [i + 2..hi] = map a [i + 2..hi]" by (intro map_cong) auto
  ultimately show ?thesis using view_split [OF assms, of ?b] by simp
qed

lemma measure_step:
  assumes "(n'::nat) < n" "r' < W"
  shows "n' * W + r' < n * W + r"
proof -
  have "Suc n' * W \<le> n * W" using assms(1) by (intro mult_le_mono1) simp
  with assms(2) show ?thesis by simp
qed

lemma stableLoop_terminates:
  assumes "antisymmetric cmp"
  shows "lo \<le> i \<Longrightarrow> \<exists>s'. stableLoop cmp lo hi s i = Some s'"
proof (induction "inversions cmp (map (fst s) [lo..hi]) * (nat (hi - lo) + 2) + nat (hi - i)"
    arbitrary: s i rule: less_induct)
  case less
  show ?case
  proof (cases "i < hi")
    case True
    let ?a = "fst s"
    let ?c = "cmp (?a i) (?a (i + 1))" and ?s1 = "(?a, snd s @ [Compare i (i + 1)])"
    show ?thesis
    proof (cases "?c > 0")
      case gt: True
      let ?s2 = "swapVariables ?s1 i (i + 1)"
      let ?i' = "(if i > lo then i - 2 else i) + 1"
      have "\<not> cmp (?a (i + 1)) (?a i) > 0" using assms gt by (simp add: antisymmetric_def)
      with gt have "inversions cmp (map (fst ?s2) [lo..hi]) < inversions cmp (map ?a [lo..hi])"
        using inversions_swap [of cmp "?a i" "?a (i + 1)"] less.prems True
        by (simp add: swapVariables_eq view_swapped view_split [of lo i hi ?a])
      moreover have "nat (hi - ?i') < nat (hi - lo) + 2" using less.prems by auto
      ultimately have "inversions cmp (map (fst ?s2) [lo..hi]) * (nat (hi - lo) + 2) + nat (hi - ?i')
          < inversions cmp (map ?a [lo..hi]) * (nat (hi - lo) + 2) + nat (hi - i)"
        by (rule measure_step)
      moreover have "lo \<le> ?i'" using less.prems by auto
      ultimately have "\<exists>s'. stableLoop cmp lo hi ?s2 ?i' = Some s'" by (rule less.hyps)
      then show ?thesis using True gt
        by (subst stableLoop.simps) (simp add: compareAt_eq)
    next
      case False
      have "inversions cmp (map (fst ?s1) [lo..hi]) * (nat (hi - lo) + 2) + nat (hi - (i + 1))
          < inversions cmp (map ?a [lo..hi]) * (nat (hi - lo) + 2) + nat (hi - i)"
        using True by simp
      moreover have "lo \<le> i + 1" using less.prems by simp
      ultimately have "\<exists>s'. stableLoop cmp lo hi ?s1 (i + 1) = Some s'" by (rule less.hyps)
      then show ?thesis using True False
        by (subst stableLoop.simps) (simp add: compareAt_eq)
    qed
  next
    case False
    then show ?thesis by (subst stableLoop.simps) simp
  qed
qed

lemma consistent_antisymmetric: "consistent cmp \<Longrightarrow> antisymmetric cmp"
  unfolding consistent_def antisymmetric_def by (metis less_asym)

lemma consistent_refl: "consistent cmp \<Longrightarrow> cmp x x = 0"
  unfolding consistent_def by (metis less_asym linorder_neqE_linordered_idom)

lemma consistent_trans: "consistent cmp \<Longrightarrow> cmp x y \<le> 0 \<Longrightarrow> cmp y z \<le> 0 \<Longrightarrow> cmp x z \<le> 0"
  unfolding consistent_def by blast

lemma consistent_flip: "consistent cmp \<Longrightarrow> cmp x y > 0 \<Longrightarrow> cmp y x < 0"
  unfolding consistent_def by blast

lemma consistent_total: "consistent cmp \<Longrightarrow> \<not> cmp x y \<le> 0 \<Longrightarrow> cmp y x \<le> 0"
  unfolding consistent_def by (metis less_le_not_le linorder_le_less_linear)

lemma consistent_sym: "consistent cmp \<Longrightarrow> cmp x y = 0 \<Longrightarrow> cmp y x = 0"
  unfolding consistent_def by (metis less_irrefl linorder_neqE_linordered_idom)

lemma stableLoop_sorted:
  assumes "stableLoop cmp lo hi s i = Some s'"
  shows "antisymmetric cmp \<longrightarrow> lo \<le> i \<longrightarrow> sortedRange cmp (fst s) lo i \<longrightarrow>
           sortedRange cmp (fst s') lo hi"
proof (rule stableLoop.raw_induct
    [where P = "\<lambda>cmp lo hi s i s'. antisymmetric cmp \<longrightarrow> lo \<le> i \<longrightarrow>
        sortedRange cmp (fst s) lo i \<longrightarrow> sortedRange cmp (fst s') lo hi", OF _ assms], goal_cases)
  case (1 loop cmp lo hi s i s')
  show ?case
  proof (intro impI)
    assume anti: "antisymmetric cmp" and i: "lo \<le> i" and sorted: "sortedRange cmp (fst s) lo i"
    let ?a = "fst s"
    show "sortedRange cmp (fst s') lo hi"
    proof (cases "i < hi")
      case True
      let ?c = "cmp (?a i) (?a (i + 1))" and ?s1 = "(?a, snd s @ [Compare i (i + 1)])"
      show ?thesis
      proof (cases "?c > 0")
        case gt: True
        let ?s2 = "swapVariables ?s1 i (i + 1)"
        let ?i' = "(if i > lo then i - 2 else i) + 1"
        from 1(2) True gt have run: "loop cmp lo hi ?s2 ?i' = Some s'"
          by (simp add: compareAt_eq)
        have "\<not> cmp (?a (i + 1)) (?a i) > 0" using anti gt by (simp add: antisymmetric_def)
        with sorted have "sortedRange cmp (fst ?s2) lo ?i'"
          by (auto simp: sortedRange_def swapVariables_eq)
        moreover have "lo \<le> ?i'" using i by auto
        ultimately show ?thesis using 1(1) [OF run] anti by blast
      next
        case False
        with 1(2) True have run: "loop cmp lo hi ?s1 (i + 1) = Some s'"
          by (simp add: compareAt_eq)
        have "sortedRange cmp (fst ?s1) lo (i + 1)"
          unfolding sortedRange_def
        proof (intro allI impI)
          fix k assume "lo \<le> k \<and> k < i + 1"
          then have "k < i \<or> k = i" by auto
          with sorted False \<open>lo \<le> k \<and> k < i + 1\<close> show "cmp (fst ?s1 k) (fst ?s1 (k + 1)) \<le> 0"
            by (auto simp: sortedRange_def)
        qed
        with 1(1) [OF run] anti i show ?thesis by simp
      qed
    next
      case False
      with 1(2) have "s' = s" by simp
      with sorted False show ?thesis by (auto simp: sortedRange_def)
    qed
  qed
qed

lemma filter_swap:
  assumes "\<not> (P x \<and> P y)"
  shows "filter P (pre @ y # x # post) = filter P (pre @ x # y # post)"
  using assms by auto

lemma stableLoop_stable:
  assumes "stableLoop cmp lo hi s i = Some s'"
  shows "consistent cmp \<longrightarrow> lo \<le> i \<longrightarrow>
           filter (\<lambda>y. cmp x y = 0) (map (fst s') [lo..hi]) =
           filter (\<lambda>y. cmp x y = 0) (map (fst s) [lo..hi])"
proof (rule stableLoop.raw_induct
    [where P = "\<lambda>cmp lo hi s i s'. consistent cmp \<longrightarrow> lo \<le> i \<longrightarrow>
           filter (\<lambda>y. cmp x y = 0) (map (fst s') [lo..hi]) =
           filter (\<lambda>y. cmp x y = 0) (map (fst s) [lo..hi])", OF _ assms], goal_cases)
  case (1 loop cmp lo hi s i s')
  show ?case
  proof (intro impI)
    assume con: "consistent cmp" and i: "lo \<le> i"
    let ?a = "fst s"
    let ?E = "\<lambda>y. cmp x y = 0"
    show "filter ?E (map (fst s') [lo..hi]) = filter ?E (map ?a [lo..hi])"
    proof (cases "i < hi")
      case True
      let ?c = "cmp (?a i) (?a (i + 1))" and ?s1 = "(?a, snd s @ [Compare i (i + 1)])"
      show ?thesis
      proof (cases "?c > 0")
        case gt: True
        let ?s2 = "swapVariables ?s1 i (i + 1)"
        let ?i' = "(if i > lo then i - 2 else i) + 1"
        from 1(2) True gt have run: "loop cmp lo hi ?s2 ?i' = Some s'"
          by (simp add: compareAt_eq)
        have "lo \<le> ?i'" using i by auto
        with 1(1) [OF run] con
        have "filter ?E (map (fst s') [lo..hi]) = filter ?E (map (fst ?s2) [lo..hi])" by blast
        moreover have "\<not> (?E (?a i) \<and> ?E (?a (i + 1)))"
        proof
          assume e: "?E (?a i) \<and> ?E (?a (i + 1))"
          then have "cmp (?a i) x = 0" using con consistent_sym by fastforce
          with e have "cmp (?a i) (?a (i + 1)) \<le> 0"
            using consistent_trans [OF con, of "?a i" x "?a (i + 1)"] by simp
          with gt show False by simp
        qed
        then have "filter ?E (map (fst ?s2) [lo..hi]) = filter ?E (map ?a [lo..hi])"
          using i True filter_swap [of ?E "?a i" "?a (i + 1)"]
          by (simp add: swapVariables_eq view_swapped view_split [of lo i hi ?a])
        ultimately show ?thesis by simp
      next
        case False
        with 1(2) True have run: "loop cmp lo hi ?s1 (i + 1) = Some s'"
          by (simp add: compareAt_eq)
        from 1(1) [OF run] con i show ?thesis by simp
      qed
    next
      case False
      with 1(2) show ?thesis by simp
    qed
  qed
qed

lemma stableLoop_sorted_input:
  "sortedRange cmp (fst s) lo hi \<Longrightarrow> lo \<le> i \<Longrightarrow>
     \<exists>tr. stableLoop cmp lo hi s i = Some (fst s, tr)"
proof (induction "nat (hi - i)" arbitrary: s i)
  case 0
  then have "stableLoop cmp lo hi s i = Some (fst s, snd s)"
    by (subst stableLoop.simps) simp
  then show ?case by blast
next
  case (Suc n)
  let ?s1 = "(fst s, snd s @ [Compare i (i + 1)])"
  from Suc(2) have lt: "i < hi" by simp
  with Suc(3,4) have le: "\<not> cmp (fst s i) (fst s (i + 1)) > 0"
    by (auto simp: sortedRange_def)
  have "n = nat (hi - (i + 1))" using Suc(2) by simp
  from Suc(1) [OF this, of ?s1] Suc(3,4)
  obtain tr where "stableLoop cmp lo hi ?s1 (i + 1) = Some (fst s, tr)"
    by auto
  then have "stableLoop cmp lo hi s i = Some (fst s, tr)"
    using lt le by (subst stableLoop.simps) (simp add: compareAt_eq)
  then show ?case by blast
qed

section \<open>Selection sort and partition under a consistent comparator\<close>

lemma maxScan_max:
  "maxScan cmp s m k j = (m', s') \<Longrightarrow> consistent cmp \<Longrightarrow>
     (\<forall>p. lo \<le> p \<and> p < k \<longrightarrow> cmp (fst s p) (fst s m) \<le> 0) \<Longrightarrow> lo \<le> k \<Longrightarrow>
     (\<forall>p. lo \<le> p \<and> p \<le> j \<longrightarrow> cmp (fst s p) (fst s m') \<le> 0)"
proof (induction cmp s m k j rule: maxScan.induct)
  case (1 cmp s m k j)
  note con = "1.prems"(2)
  show ?case
  proof (cases "k \<le> j")
    case True
    let ?a = "fst s"
    let ?c = "cmp (?a k) (?a m)" and ?s = "(?a, snd s @ [Compare k m])"
    let ?m = "if ?c > 0 then k else m"
    have c: "(?c, ?s) = compareAt cmp s k m" by (simp add: compareAt_eq)
    from True "1.prems"(1) have run: "maxScan cmp (intExpr ?s (k + 1)) ?m (k + 1) j = (m', s')"
      by (subst (asm) maxScan.simps) (simp add: compareAt_eq)
    have "\<forall>p. lo \<le> p \<and> p < k + 1 \<longrightarrow> cmp (?a p) (?a ?m) \<le> 0"
    proof (intro allI impI)
      fix p assume p: "lo \<le> p \<and> p < k + 1"
      show "cmp (?a p) (?a ?m) \<le> 0"
      proof (cases "?c > 0")
        case gt: True
        then have mk: "cmp (?a m) (?a k) \<le> 0" using consistent_flip [OF con] by fastforce
        show ?thesis
        proof (cases "p = k")
          case True
          with gt show ?thesis by (simp add: consistent_refl [OF con])
        next
          case False
          with p "1.prems"(3) have "cmp (?a p) (?a m) \<le> 0" by simp
          with mk gt show ?thesis using consistent_trans [OF con] by auto
        qed
      next
        case False
        with p "1.prems"(3) show ?thesis by (cases "p = k") auto
      qed
    qed
    with "1.IH" [OF True c run con] "1.prems"(4) show ?thesis by simp
  next
    case False
    with "1.prems" show ?thesis by (subst (asm) maxScan.simps) auto
  qed
qed

lemma selectionLoop_sorted:
  "consistent cmp \<Longrightarrow> - 2147483648 \<le> lo \<Longrightarrow> j < 2147483647 \<Longrightarrow>
     sortedRange cmp (fst (selectionLoop cmp lo s j)) lo j"
proof (induction cmp lo s j rule: selectionLoop.induct)
  case (1 cmp lo s j)
  note con = "1.prems"(1) and b = "1.prems"(2,3)
  show ?case
  proof (cases "j > lo")
    case True
    let ?a = "fst s"
    obtain m s1 where ms: "maxScan cmp s lo (lo + 1) j = (m, s1)"
      by (cases "maxScan cmp s lo (lo + 1) j")
    let ?s2 = "swapVariables s1 j m"
    let ?s' = "selectionLoop cmp lo ?s2 (j - 1)"
    have eq: "selectionLoop cmp lo s j = ?s'"
      using True ms by (subst selectionLoop.simps) simp
    from maxScan_reads [OF ms, of lo j] True b
    have a1: "fst s1 = ?a" and m: "lo \<le> m" "m \<le> j" by auto
    have "\<forall>p. lo \<le> p \<and> p < lo + 1 \<longrightarrow> cmp (?a p) (?a lo) \<le> 0"
      by (auto simp: consistent_refl [OF con])
    from maxScan_max [OF ms con this]
    have mx: "\<forall>p. lo \<le> p \<and> p \<le> j \<longrightarrow> cmp (?a p) (?a m) \<le> 0" by simp
    have top: "\<forall>p. lo \<le> p \<and> p \<le> j \<longrightarrow> cmp (fst ?s2 p) (fst ?s2 j) \<le> 0"
      using mx m a1 by (auto simp: swapVariables_eq)
    have w: "within lo (j - 1) ?s2 ?s'" using b by (intro selectionLoop_within) simp_all
    then have perm: "permutedOn {lo..j - 1} (fst ?s2) (fst ?s')" by (simp add: within_def)
    then have j: "fst ?s' j = fst ?s2 j" by (simp add: permutedOn_def)
    from "1.IH" [OF True ms [symmetric] con b(1)] b(2)
    have IH: "sortedRange cmp (fst ?s') lo (j - 1)" by simp
    have "sortedRange cmp (fst ?s') lo j"
      unfolding sortedRange_def
    proof (intro allI impI)
      fix i assume i: "lo \<le> i \<and> i < j"
      show "cmp (fst ?s' i) (fst ?s' (i + 1)) \<le> 0"
      proof (cases "i < j - 1")
        case True
        with IH i show ?thesis by (simp add: sortedRange_def)
      next
        case False
        with i have ij: "i = j - 1" by simp
        with i have "i \<in> {lo..j - 1}" by simp
        from permutedOn_elem [OF _ perm this]
        obtain q where "lo \<le> q" "q \<le> j - 1" "fst ?s' i = fst ?s2 q" by auto
        with top j ij show ?thesis by simp
      qed
    qed
    with eq show ?thesis by simp
  next
    case False
    then show ?thesis by (simp add: sortedRange_def)
  qed
qed

lemma scanUp_post:
  "scanUp cmp lo hi s i = (i1, s1) \<Longrightarrow>
     (\<forall>p. i < p \<and> p < i1 \<longrightarrow> cmp (fst s p) (fst s lo) \<le> 0) \<and>
     (i1 \<le> hi \<longrightarrow> cmp (fst s i1) (fst s lo) > 0)"
proof (induction cmp lo hi s i rule: scanUp.induct)
  case (1 cmp lo hi s i)
  show ?case
  proof (cases "i + 1 \<le> hi")
    case True
    let ?c = "cmp (fst s (i + 1)) (fst s lo)"
      and ?s = "(fst s, snd (intExpr s (i + 1)) @ [Compare (i + 1) lo])"
    have c: "(?c, ?s) = compareAt cmp (intExpr s (i + 1)) (i + 1) lo" by (simp add: compareAt_eq)
    show ?thesis
    proof (cases "?c \<le> 0")
      case le: True
      from True le "1.prems"(1) have run: "scanUp cmp lo hi ?s (i + 1) = (i1, s1)"
        by (subst (asm) scanUp.simps) (simp add: compareAt_eq)
      from "1.IH" [OF refl True c le run]
      have IH: "\<forall>p. i + 1 < p \<and> p < i1 \<longrightarrow> cmp (fst s p) (fst s lo) \<le> 0"
        "i1 \<le> hi \<longrightarrow> cmp (fst s i1) (fst s lo) > 0" by simp_all
      have "\<forall>p. i < p \<and> p < i1 \<longrightarrow> cmp (fst s p) (fst s lo) \<le> 0"
      proof (intro allI impI)
        fix p assume "i < p \<and> p < i1"
        then have "p = i + 1 \<or> (i + 1 < p \<and> p < i1)" by auto
        with le IH(1) show "cmp (fst s p) (fst s lo) \<le> 0" by auto
      qed
      with IH(2) show ?thesis by simp
    next
      case False
      with True "1.prems"(1) have "i1 = i + 1"
        by (subst (asm) scanUp.simps) (auto simp: compareAt_eq)
      with False show ?thesis by auto
    qed
  next
    case False
    with "1.prems" have "i1 = i + 1" by (subst (asm) scanUp.simps) auto
    with False show ?thesis by auto
  qed
qed

lemma scanDown_post:
  "scanDown cmp lo s j = (j1, s1) \<Longrightarrow>
     (\<forall>q. j1 < q \<and> q < j \<longrightarrow> cmp (fst s q) (fst s lo) \<ge> 0) \<and>
     (lo < j1 \<longrightarrow> cmp (fst s j1) (fst s lo) < 0)"
proof (induction cmp lo s j rule: scanDown.induct)
  case (1 cmp lo s j)
  show ?case
  proof (cases "j - 1 > lo")
    case True
    let ?c = "cmp (fst s (j - 1)) (fst s lo)" and ?s = "(fst s, snd s @ [Compare (j - 1) lo])"
    have c: "(?c, ?s) = compareAt cmp s (j - 1) lo" by (simp add: compareAt_eq)
    show ?thesis
    proof (cases "?c \<ge> 0")
      case ge: True
      from True ge "1.prems"(1) have run: "scanDown cmp lo ?s (j - 1) = (j1, s1)"
        by (subst (asm) scanDown.simps) (simp add: compareAt_eq)
      from "1.IH" [OF True c ge run]
      have IH: "\<forall>q. j1 < q \<and> q < j - 1 \<longrightarrow> cmp (fst s q) (fst s lo) \<ge> 0"
        "lo < j1 \<longrightarrow> cmp (fst s j1) (fst s lo) < 0" by simp_all
      have "\<forall>q. j1 < q \<and> q < j \<longrightarrow> cmp (fst s q) (fst s lo) \<ge> 0"
      proof (intro allI impI)
        fix q assume "j1 < q \<and> q < j"
        then have "q = j - 1 \<or> (j1 < q \<and> q < j - 1)" by auto
        with ge IH(1) show "cmp (fst s q) (fst s lo) \<ge> 0" by auto
      qed
      with IH(2) show ?thesis by simp
    next
      case False
      with True "1.prems"(1) have "j1 = j - 1"
        by (subst (asm) scanDown.simps) (auto simp: compareAt_eq)
      with False show ?thesis by auto
    qed
  next
    case False
    with "1.prems" have "j1 = j - 1" by (subst (asm) scanDown.simps) auto
    with False show ?thesis by auto
  qed
qed

lemma partitionLoop_post:
  "partitionLoop cmp lo hi s i j = (i', j', s') \<Longrightarrow>
     lo \<le> i \<Longrightarrow> i \<le> hi \<Longrightarrow> lo < j \<Longrightarrow> j \<le> hi + 1 \<Longrightarrow>
     (\<forall>p. lo < p \<and> p \<le> i \<longrightarrow> cmp (fst s p) (fst s lo) \<le> 0) \<Longrightarrow>
     (\<forall>q. j \<le> q \<and> q \<le> hi \<longrightarrow> cmp (fst s q) (fst s lo) \<ge> 0) \<Longrightarrow>
     - 2147483648 \<le> lo \<Longrightarrow> hi < 2147483647 \<Longrightarrow>
     fst s' lo = fst s lo \<and>
     (\<forall>p. lo < p \<and> p < i' \<longrightarrow> cmp (fst s' p) (fst s' lo) \<le> 0) \<and>
     (\<forall>q. j' < q \<and> q \<le> hi \<longrightarrow> cmp (fst s' q) (fst s' lo) \<ge> 0)"
proof (induction cmp lo hi s i j rule: partitionLoop.induct)
  case (1 cmp lo hi s i j)
  let ?a = "fst s"
  obtain i1 s1 where up: "scanUp cmp lo hi s i = (i1, s1)"
    by (cases "scanUp cmp lo hi s i")
  obtain j1 s2 where down: "scanDown cmp lo s1 j = (j1, s2)"
    by (cases "scanDown cmp lo s1 j")
  from scanUp_index [OF up] "1.prems" have i1: "i < i1" "i1 \<le> hi + 1" by auto
  from scanDown_index [OF down] "1.prems" have j1: "j1 < j" "lo \<le> j1" by auto
  from scanUp_reads [OF up, of lo hi] "1.prems" have a1: "fst s1 = ?a" by simp
  from scanDown_reads [OF down, of lo hi] "1.prems" a1 have a2: "fst s2 = ?a" by simp
  from scanUp_post [OF up]
  have upp: "\<forall>p. i < p \<and> p < i1 \<longrightarrow> cmp (?a p) (?a lo) \<le> 0"
    "i1 \<le> hi \<longrightarrow> cmp (?a i1) (?a lo) > 0" by simp_all
  from scanDown_post [OF down] a1
  have downp: "\<forall>q. j1 < q \<and> q < j \<longrightarrow> cmp (?a q) (?a lo) \<ge> 0"
    "lo < j1 \<longrightarrow> cmp (?a j1) (?a lo) < 0" by simp_all
  have low: "\<forall>p. lo < p \<and> p < i1 \<longrightarrow> cmp (?a p) (?a lo) \<le> 0"
  proof (intro allI impI)
    fix p assume "lo < p \<and> p < i1"
    then have "(lo < p \<and> p \<le> i) \<or> (i < p \<and> p < i1)" by auto
    with upp(1) "1.prems"(6) show "cmp (?a p) (?a lo) \<le> 0" by blast
  qed
  have high: "\<forall>q. j1 < q \<and> q \<le> hi \<longrightarrow> cmp (?a q) (?a lo) \<ge> 0"
  proof (intro allI impI)
    fix q assume "j1 < q \<and> q \<le> hi"
    then have "(j \<le> q \<and> q \<le> hi) \<or> (j1 < q \<and> q < j)" by auto
    with downp(1) "1.prems"(7) show "cmp (?a q) (?a lo) \<ge> 0" by blast
  qed
  show ?case
  proof (cases "j1 < i1")
    case True
    with up down "1.prems"(1) have "i' = i1 \<and> j' = j1 \<and> s' = s2"
      by (subst (asm) partitionLoop.simps) simp
    with low high a2 show ?thesis by simp
  next
    case False
    let ?s3 = "swapVariables s2 i1 j1"
    let ?b = "fst ?s3"
    from False up down "1.prems"(1)
    have run: "partitionLoop cmp lo hi ?s3 i1 j1 = (i', j', s')"
      by (subst (asm) partitionLoop.simps) simp
    have b: "?b = ?a(i1 := ?a j1, j1 := ?a i1)" by (simp add: swapVariables_eq a2)
    have ij: "lo < i1" "i1 \<le> j1" "j1 \<le> hi" using False i1 j1 "1.prems" by auto
    have blo: "?b lo = ?a lo" using ij by (simp add: b)
    have E: "\<forall>p. lo < p \<and> p \<le> i1 \<longrightarrow> cmp (?b p) (?b lo) \<le> 0"
    proof (intro allI impI)
      fix p assume p: "lo < p \<and> p \<le> i1"
      show "cmp (?b p) (?b lo) \<le> 0"
      proof (cases "p = i1")
        case True
        with ij downp(2) upp(2) show ?thesis by (auto simp: b)
      next
        case False
        with p ij low show ?thesis by (auto simp: b)
      qed
    qed
    have F: "\<forall>q. j1 \<le> q \<and> q \<le> hi \<longrightarrow> cmp (?b q) (?b lo) \<ge> 0"
    proof (intro allI impI)
      fix q assume q: "j1 \<le> q \<and> q \<le> hi"
      show "cmp (?b q) (?b lo) \<ge> 0"
      proof (cases "q = j1")
        case True
        with ij upp(2) show ?thesis by (auto simp: b)
      next
        case False
        with q ij high show ?thesis by (auto simp: b)
      qed
    qed
    have A: "lo \<le> i1" "i1 \<le> hi" "lo < j1" "j1 \<le> hi + 1" using ij by simp_all
    from "1.IH" [OF up [symmetric] down [symmetric] False run A E F "1.prems"(8,9)]
    have "fst s' lo = ?b lo \<and>
        (\<forall>p. lo < p \<and> p < i' \<longrightarrow> cmp (fst s' p) (fst s' lo) \<le> 0) \<and>
        (\<forall>q. j' < q \<and> q \<le> hi \<longrightarrow> cmp (fst s' q) (fst s' lo) \<ge> 0)" .
    with blo show ?thesis by metis
  qed
qed

lemma consistent_ge: "consistent cmp \<Longrightarrow> cmp x y \<ge> 0 \<Longrightarrow> cmp y x \<le> 0"
  using consistent_flip [of cmp x y] consistent_sym [of cmp x y] by (cases "cmp x y = 0") auto

lemma partitionRange_post:
  assumes "partitionRange cmp s lo hi = (i, j, s')" "lo < hi" "consistent cmp"
    and "- 2147483648 \<le> lo" "hi < 2147483647"
  shows "(\<forall>p. lo \<le> p \<and> p < i \<longrightarrow> cmp (fst s' p) (fst s' j) \<le> 0) \<and>
         (\<forall>q. j < q \<and> q \<le> hi \<longrightarrow> cmp (fst s' j) (fst s' q) \<le> 0)"
proof -
  let ?mid = "lo + (hi - lo + 1) div 2"
  let ?s1 = "swapVariables s ?mid lo"
  have fit: "intExpr ?s1 (hi + 1) = ?s1" using assms by (intro intExpr_in) auto
  obtain i0 j0 s0 where p: "partitionLoop cmp lo hi ?s1 lo (hi + 1) = (i0, j0, s0)"
    by (metis prod_cases3)
  with assms(1) have eq: "i = i0" "j = j0" "s' = swapVariables s0 j0 lo"
    by (auto simp: partitionRange_def Let_def fit)
  let ?a = "fst s0"
  from partitionLoop_index [OF p] assms(2) have ij: "lo \<le> j0" "j0 < i0" "i0 \<le> hi + 1" by auto
  from partitionLoop_post [OF p] assms(2,4,5)
  have low: "\<forall>p. lo < p \<and> p < i0 \<longrightarrow> cmp (?a p) (?a lo) \<le> 0"
    and high: "\<forall>q. j0 < q \<and> q \<le> hi \<longrightarrow> cmp (?a q) (?a lo) \<ge> 0" by auto
  have a': "fst s' = ?a(j0 := ?a lo, lo := ?a j0)" by (simp add: eq swapVariables_eq)
  have "\<forall>p. lo \<le> p \<and> p < i0 \<longrightarrow> cmp (fst s' p) (fst s' j0) \<le> 0"
  proof (intro allI impI)
    fix p assume p: "lo \<le> p \<and> p < i0"
    show "cmp (fst s' p) (fst s' j0) \<le> 0"
    proof (cases "p = lo \<or> p = j0")
      case True
      with ij low show ?thesis by (auto simp: a' consistent_refl [OF assms(3)])
    next
      case False
      with p ij low show ?thesis by (auto simp: a')
    qed
  qed
  moreover have "\<forall>q. j0 < q \<and> q \<le> hi \<longrightarrow> cmp (fst s' j0) (fst s' q) \<le> 0"
  proof (intro allI impI)
    fix q assume q: "j0 < q \<and> q \<le> hi"
    with high have "cmp (?a q) (?a lo) \<ge> 0" by simp
    then have "cmp (?a lo) (?a q) \<le> 0" by (rule consistent_ge [OF assms(3)])
    with q ij show "cmp (fst s' j0) (fst s' q) \<le> 0" by (auto simp: a')
  qed
  ultimately show ?thesis by (simp add: eq)
qed

text \<open>
  What the two sides of a partition need for the whole range to be sorted: each side
  sorted, and holding the elements it held.
\<close>

lemma partition_sorted:
  assumes con: "consistent cmp"
    and ij: "lo \<le> j" "j < i" "i \<le> hi + 1"
    and low: "\<forall>p. lo \<le> p \<and> p < i \<longrightarrow> cmp (a p) (a j) \<le> 0"
    and high: "\<forall>q. j < q \<and> q \<le> hi \<longrightarrow> cmp (a j) (a q) \<le> 0"
    and left: "elems a' {lo..j - 1} = elems a {lo..j - 1}" "sortedRange cmp a' lo (j - 1)"
    and right: "elems a' {i..hi} = elems a {i..hi}" "sortedRange cmp a' i hi"
    and mid: "\<forall>k. j \<le> k \<and> k < i \<longrightarrow> a' k = a k"
  shows "sortedRange cmp a' lo hi"
  unfolding sortedRange_def
proof (intro allI impI)
  fix k assume k: "lo \<le> k \<and> k < hi"
  have L: "cmp (a' p) (a j) \<le> 0" if "lo \<le> p" "p < i" for p
  proof (cases "p < j")
    case True
    with that have "a' p \<in># elems a' {lo..j - 1}"
      by (auto simp: elems_member intro!: bexI [of _ p])
    with left(1) obtain m where "lo \<le> m" "m \<le> j - 1" "a' p = a m"
      by (auto simp: elems_member)
    with low ij show ?thesis by simp
  next
    case False
    with that mid low show ?thesis by simp
  qed
  have R: "cmp (a j) (a' q) \<le> 0" if "j \<le> q" "q \<le> hi" for q
  proof (cases "i \<le> q")
    case True
    with that have "a' q \<in># elems a' {i..hi}"
      by (auto simp: elems_member intro!: bexI [of _ q])
    with right(1) obtain m where "i \<le> m" "m \<le> hi" "a' q = a m"
      by (auto simp: elems_member)
    with high ij show ?thesis by simp
  next
    case False
    with that mid have "a' q = a q" by simp
    with high that show ?thesis by (cases "q = j") (auto simp: consistent_refl [OF con])
  qed
  show "cmp (a' k) (a' (k + 1)) \<le> 0"
  proof (cases "k + 1 < j")
    case True
    with left(2) k show ?thesis by (simp add: sortedRange_def)
  next
    case False
    show ?thesis
    proof (cases "i \<le> k")
      case True
      with right(2) k show ?thesis by (simp add: sortedRange_def)
    next
      case k': False
      have "cmp (a' k) (a j) \<le> 0" using k k' by (intro L) simp_all
      moreover have "cmp (a j) (a' (k + 1)) \<le> 0" using k False by (intro R) simp_all
      ultimately show ?thesis by (rule consistent_trans [OF con])
    qed
  qed
qed

section \<open>The outer loop sorts\<close>

text \<open>
  \<open>separate\<close>: no two ranges of the list share a cell. \<open>settled cmp pending a a'\<close>: from
  \<open>a\<close> to \<open>a'\<close> every range of the list was sorted in place, and the cells outside all
  of them were left alone.
\<close>

fun separate :: "stack \<Rightarrow> bool" where
  "separate [] = True"
| "separate (r # rs) = ((\<forall>q\<in>set rs. snd r < fst q \<or> snd q < fst r) \<and> separate rs)"

definition settled :: "'a comparator \<Rightarrow> stack \<Rightarrow> 'a array \<Rightarrow> 'a array \<Rightarrow> bool" where
  "settled cmp pending a a' =
     ((\<forall>r\<in>set pending. elems a' {fst r..snd r} = elems a {fst r..snd r} \<and>
          sortedRange cmp a' (fst r) (snd r)) \<and>
      (\<forall>k. (\<forall>r\<in>set pending. k < fst r \<or> snd r < k) \<longrightarrow> a' k = a k))"

lemma separate_append:
  "separate new \<Longrightarrow> separate ((lo, hi) # stk) \<Longrightarrow> \<forall>r\<in>set new. lo \<le> fst r \<and> snd r \<le> hi \<Longrightarrow>
     separate (new @ stk)"
  by (induction new) fastforce+

lemma deferred_set:
  "set (deferred lo hi i j) = {r. (r = (lo, j - 1) \<or> r = (i, hi)) \<and> fst r < snd r}"
  by (auto simp: deferred_def)

lemma deferred_separate: "j < i \<Longrightarrow> separate (deferred lo hi i j)"
  by (auto simp: deferred_def)

lemma settled_step:
  assumes sep: "separate ((lo, hi) # stk)"
    and perm: "permutedOn {lo..hi} a a1"
    and sub: "\<forall>r\<in>set new. lo \<le> fst r \<and> snd r \<le> hi"
    and IH: "settled cmp (new @ stk) a1 a'"
    and whole: "elems a' {lo..hi} = elems a1 {lo..hi}" "sortedRange cmp a' lo hi"
  shows "settled cmp ((lo, hi) # stk) a a'"
proof -
  have out: "a1 k = a k" if "k < lo \<or> hi < k" for k
    using perm that by (auto simp: permutedOn_def)
  have "elems a' {lo..hi} = elems a {lo..hi}"
    using whole(1) perm by (simp add: permutedOn_def)
  moreover have "elems a' {fst r..snd r} = elems a {fst r..snd r} \<and> sortedRange cmp a' (fst r) (snd r)"
    if r: "r \<in> set stk" for r
  proof -
    from sep r have "snd r < lo \<or> hi < fst r" by auto
    then have "elems a1 {fst r..snd r} = elems a {fst r..snd r}"
      by (intro elems_cong out) auto
    with IH r show ?thesis by (simp add: settled_def)
  qed
  moreover have "a' k = a k" if k: "\<forall>r\<in>set ((lo, hi) # stk). k < fst r \<or> snd r < k" for k
  proof -
    from k sub have "\<forall>r\<in>set (new @ stk). k < fst r \<or> snd r < k" by fastforce
    with IH have "a' k = a1 k" by (simp add: settled_def)
    with out k show ?thesis by simp
  qed
  ultimately show ?thesis using whole(2) by (simp add: settled_def)
qed

lemma elems_three_parts:
  assumes "lo \<le> j" "j < i" "i \<le> hi + 1"
    and "elems a' {lo..j - 1} = elems a {lo..j - 1}"
    and "elems a' {i..hi} = elems a {i..hi}"
    and "\<forall>k. j \<le> k \<and> k < i \<longrightarrow> a' k = a k"
  shows "elems a' {lo..hi} = elems a {lo..hi}"
proof -
  have m: "elems a' {j..i - 1} = elems a {j..i - 1}"
    using assms(6) by (intro elems_cong) simp
  have s1: "{lo..hi} = {lo..j - 1} \<union> ({j..i - 1} \<union> {i..hi})" using assms(1-3) by auto
  have e: "elems b {lo..hi} = elems b {lo..j - 1} + (elems b {j..i - 1} + elems b {i..hi})" for b :: "'a array"
  proof -
    have "elems b ({j..i - 1} \<union> {i..hi}) = elems b {j..i - 1} + elems b {i..hi}"
      by (intro elems_Un) auto
    moreover have "elems b ({lo..j - 1} \<union> ({j..i - 1} \<union> {i..hi})) =
        elems b {lo..j - 1} + elems b ({j..i - 1} \<union> {i..hi})"
      using assms(2) by (intro elems_Un) auto
    ultimately show ?thesis using s1 by simp
  qed
  show ?thesis using assms(4,5) m by (simp add: e)
qed

lemma settled_range:
  assumes "settled cmp pending a a'" "(f, l) \<in> set pending"
  shows "elems a' {f..l} = elems a {f..l} \<and> sortedRange cmp a' f l"
proof -
  from assms have "elems a' {fst (f, l)..snd (f, l)} = elems a {fst (f, l)..snd (f, l)} \<and>
      sortedRange cmp a' (fst (f, l)) (snd (f, l))"
    unfolding settled_def by blast
  then show ?thesis by simp
qed

lemma settled_outside:
  "settled cmp pending a a' \<Longrightarrow> (\<forall>r\<in>set pending. k < fst r \<or> snd r < k) \<Longrightarrow> a' k = a k"
  unfolding settled_def by blast

lemma deferred_outside:
  "(\<forall>r\<in>set (deferred lo hi i j). k < fst r \<or> snd r < k) \<longleftrightarrow>
     (lo < j - 1 \<longrightarrow> k < lo \<or> j - 1 < k) \<and> (i < hi \<longrightarrow> k < i \<or> hi < k)"
  by (auto simp: deferred_set)

lemma runPending_settled:
  "consistent cmp \<longrightarrow> separate pending \<longrightarrow> framed f l pending \<longrightarrow>
     settled cmp pending (fst s) (fst (runPending cmp s pending))"
proof (induction s pending rule: runPending_induct [where cmp = cmp])
  case (finished s)
  show ?case by (simp add: settled_def)
next
  case (small s lo hi stk)
  show ?case
  proof (intro impI)
    assume con: "consistent cmp" and sep: "separate ((lo, hi) # stk)"
      and r: "framed f l ((lo, hi) # stk)"
    note h = framed_head [OF r]
    let ?s1 = "selectionLoop cmp lo s hi"
    let ?a' = "fst (runPending cmp ?s1 stk)"
    have w: "within lo hi s ?s1" using h(4,5) by (intro selectionLoop_within) simp_all
    from small(2) [unfolded h(6)] con sep h(7)
    have IH: "settled cmp ([] @ stk) (fst ?s1) ?a'" by simp
    have same: "?a' k = fst ?s1 k" if "lo \<le> k" "k \<le> hi" for k
    proof -
      from sep that have "\<forall>r\<in>set ([] @ stk). k < fst r \<or> snd r < k" by auto
      with IH show ?thesis by (rule settled_outside)
    qed
    have "elems ?a' {lo..hi} = elems (fst ?s1) {lo..hi}"
      by (intro elems_cong same) auto
    moreover have "sortedRange cmp ?a' lo hi"
      using selectionLoop_sorted [OF con h(4,5), of s] same
      by (simp add: sortedRange_def)
    moreover have "permutedOn {lo..hi} (fst s) (fst ?s1)" using w by (simp add: within_def)
    ultimately have "settled cmp ((lo, hi) # stk) (fst s) ?a'"
      using sep IH by (intro settled_step [where new = "[]" and ?a1.0 = "fst ?s1"]) simp_all
    then show "settled cmp ((lo, hi) # stk) (fst s) (fst (runPending cmp s ((lo, hi) # stk)))"
      by (simp only: runPending_small [OF small(1), unfolded h(6)])
  qed
next
  case (large s lo hi stk i j s0)
  show ?case
  proof (intro impI)
    assume con: "consistent cmp" and sep: "separate ((lo, hi) # stk)"
      and r: "framed f l ((lo, hi) # stk)"
    note h = framed_head [OF r]
    note part = large(2) [unfolded h(6)]
    let ?s1 = "fst (deferStep s0 stk lo hi i j)"
    let ?new = "deferred lo hi i j"
    let ?a0 = "fst s0"
    let ?a' = "fst (runPending cmp ?s1 (?new @ stk))"
    from large(1) have lt: "lo < hi" by simp
    note ij = large(3,4,5)
    have a1: "fst ?s1 = ?a0"
      using deferStep_state [of s0 stk lo hi i j ?s1 "fst (snd (deferStep s0 stk lo hi i j))"
          "snd (snd (deferStep s0 stk lo hi i j))"] by simp
    from partitionRange_within [OF part lt, of lo hi] h(4,5)
    have perm: "permutedOn {lo..hi} (fst s) ?a0" by (simp add: within_def)
    have sub: "\<forall>r\<in>set ?new. lo \<le> fst r \<and> snd r \<le> hi"
      using deferred_range [OF _ ij] by blast
    have "separate (?new @ stk)"
      using deferred_separate [OF ij(2)] sep sub by (rule separate_append)
    with large(6) con a1 framed_deferred [OF r ij]
    have IH: "settled cmp (?new @ stk) ?a0 ?a'" by simp
    have same: "?a' k = ?a0 k"
      if "lo \<le> k" "k \<le> hi" "\<forall>r\<in>set ?new. k < fst r \<or> snd r < k" for k
    proof -
      from sep that(1,2) have "\<forall>r\<in>set stk. k < fst r \<or> snd r < k" by auto
      with that(3) have "\<forall>r\<in>set (?new @ stk). k < fst r \<or> snd r < k" by auto
      with IH show ?thesis by (rule settled_outside)
    qed
    have left: "elems ?a' {lo..j - 1} = elems ?a0 {lo..j - 1} \<and> sortedRange cmp ?a' lo (j - 1)"
    proof (cases "lo < j - 1")
      case True
      then have "(lo, j - 1) \<in> set (?new @ stk)" by (simp add: deferred_set)
      with IH show ?thesis by (rule settled_range)
    next
      case False
      have "?a' k = ?a0 k" if "k \<in> {lo..j - 1}" for k
        using that ij False by (intro same) (auto simp: deferred_outside)
      then have "elems ?a' {lo..j - 1} = elems ?a0 {lo..j - 1}" by (rule elems_cong)
      with False show ?thesis by (simp add: sortedRange_def)
    qed
    have right: "elems ?a' {i..hi} = elems ?a0 {i..hi} \<and> sortedRange cmp ?a' i hi"
    proof (cases "i < hi")
      case True
      then have "(i, hi) \<in> set (?new @ stk)" by (simp add: deferred_set)
      with IH show ?thesis by (rule settled_range)
    next
      case False
      have "?a' k = ?a0 k" if "k \<in> {i..hi}" for k
        using that ij False by (intro same) (auto simp: deferred_outside)
      then have "elems ?a' {i..hi} = elems ?a0 {i..hi}" by (rule elems_cong)
      with False show ?thesis by (simp add: sortedRange_def)
    qed
    have mid: "\<forall>k. j \<le> k \<and> k < i \<longrightarrow> ?a' k = ?a0 k"
      using ij by (intro allI impI same) (auto simp: deferred_outside)
    from partitionRange_post [OF part lt con h(4,5)]
    have low: "\<forall>p. lo \<le> p \<and> p < i \<longrightarrow> cmp (?a0 p) (?a0 j) \<le> 0"
      and high: "\<forall>q. j < q \<and> q \<le> hi \<longrightarrow> cmp (?a0 j) (?a0 q) \<le> 0" by simp_all
    have "elems ?a' {lo..hi} = elems ?a0 {lo..hi}"
      by (rule elems_three_parts [OF ij conjunct1 [OF left] conjunct1 [OF right] mid])
    moreover have "sortedRange cmp ?a' lo hi"
      by (rule partition_sorted [OF con ij low high conjunct1 [OF left] conjunct2 [OF left]
            conjunct1 [OF right] conjunct2 [OF right] mid])
    ultimately have "settled cmp ((lo, hi) # stk) (fst s) ?a'"
      using sep perm sub IH by (intro settled_step [where new = ?new and ?a1.0 = ?a0])
    then show "settled cmp ((lo, hi) # stk) (fst s) (fst (runPending cmp s ((lo, hi) # stk)))"
      by (simp only: runPending_large [OF large(1,2)])
  qed
qed

section \<open>Degenerate ranges\<close>

text \<open>
  C5. When \<open>lastElement \<le> firstElement\<close>, \<open>sortArray\<close> returns at once, in either
  mode: the array is the one passed in and the trace is empty, so no comparator was
  called, nothing was swapped and nothing was pushed.
\<close>

theorem sortArray_degenerate_noop:
  "lastElement \<le> firstElement \<Longrightarrow>
     sortArray cmp array firstElement lastElement retain = Some (array, [])"
  by (simp add: sortArray_def)

theorem sortArray_degenerate_noop_witness:
  "(2::int) \<le> 5 \<and> sortArray naturalOrder (ofList [4, 1, 3]) 5 2 False = Some (ofList [4, 1, 3], [])
     \<and> sortArray naturalOrder (ofList [4, 1, 3]) 1 1 True = Some (ofList [4, 1, 3], [])"
  using sortArray_degenerate_noop [of 2 5 naturalOrder "ofList [4, 1, 3]" False]
    sortArray_degenerate_noop [of 1 1 naturalOrder "ofList [4, 1, 3]" True]
  by simp

lemma sortArray_quick:
  "sortArray cmp array f l False =
     Some (if l > f then runPending cmp (array, []) [(f, l)] else (array, []))"
  by (simp add: sortArray_def)

section \<open>The call as a whole\<close>

lemma sortArray_retain_eq:
  "sortArray cmp array f l True =
     (if l > f then stableLoop cmp f l (array, []) f else Some (array, []))"
  by (simp add: sortArray_def)

lemma consistent_naturalOrder: "consistent naturalOrder"
  by (auto simp: consistent_def naturalOrder_def compareElements_def)

lemma consistent_compareByFirst: "consistent compareByFirst"
  by (auto simp: consistent_def compareByFirst_def naturalOrder_def compareElements_def)

lemma sortArray_returns:
  assumes "\<not> retain \<or> antisymmetric cmp"
  shows "\<exists>s'. sortArray cmp array f l retain = Some s'"
proof (cases retain)
  case True
  with assms have "antisymmetric cmp" by simp
  from stableLoop_terminates [OF this, of f f l "(array, [])"]
  obtain s' where "stableLoop cmp f l (array, []) f = Some s'" by auto
  with True show ?thesis by (simp add: sortArray_retain_eq)
next
  case False
  then show ?thesis by (simp add: sortArray_quick)
qed

lemma framed_call: "indexRange f l \<Longrightarrow> f < l \<Longrightarrow> framed f l [(f, l)]"
  by (simp add: framed_def)

lemma sortArray_within:
  assumes "sortArray cmp array f l retain = Some s'" "retain \<or> indexRange f l"
  shows "loopWithin f l (array, []) s'"
proof (cases "l > f")
  case range: True
  show ?thesis
  proof (cases retain)
    case True
    with assms range have "stableLoop cmp f l (array, []) f = Some s'"
      by (simp add: sortArray_retain_eq)
    from stableLoop_within [OF this] have "within f l (array, []) s'" by simp
    then show ?thesis by (rule within_loopWithin) simp_all
  next
    case False
    with assms range have "s' = runPending cmp (array, []) [(f, l)]"
      by (simp add: sortArray_quick)
    moreover from False assms(2) range have "framed f l [(f, l)]" by (intro framed_call) simp_all
    with runPending_loopWithin [of f l "[(f, l)]" "(array, [])" cmp]
    have "loopWithin f l (array, []) (runPending cmp (array, []) [(f, l)])" by (rule mp)
    ultimately show ?thesis by (simp only:)
  qed
next
  case False
  with assms have "s' = (array, [])" by (simp add: sortArray_def)
  then show ?thesis by (simp add: loopWithin_refl)
qed

lemma sortArray_sortedRange:
  assumes "consistent cmp" "sortArray cmp array f l retain = Some s'" "retain \<or> indexRange f l"
  shows "sortedRange cmp (fst s') f l"
proof (cases "l > f")
  case range: True
  show ?thesis
  proof (cases retain)
    case True
    with assms range have run: "stableLoop cmp f l (array, []) f = Some s'"
      by (simp add: sortArray_retain_eq)
    have "sortedRange cmp (fst (array, [])) f f" by (simp add: sortedRange_def)
    with stableLoop_sorted [OF run] consistent_antisymmetric [OF assms(1)]
    show ?thesis by simp
  next
    case False
    with assms range have "s' = runPending cmp (array, []) [(f, l)]"
      by (simp add: sortArray_quick)
    moreover have sep: "separate [(f, l)]" by simp
    from False assms(3) range have fr: "framed f l [(f, l)]" by (intro framed_call) simp_all
    have "settled cmp [(f, l)] array (fst (runPending cmp (array, []) [(f, l)]))"
      using runPending_settled [THEN mp, THEN mp, THEN mp, OF assms(1) sep fr, of "(array, [])"]
      by simp
    then have "sortedRange cmp (fst (runPending cmp (array, []) [(f, l)])) f l"
      by (rule settled_range [THEN conjunct2]) simp
    ultimately show ?thesis by (simp only:)
  qed
next
  case False
  then show ?thesis by (simp add: sortedRange_def)
qed


lemma loopWithin_mset:
  "loopWithin f l (a, tr) (a', tr') \<Longrightarrow> mset (map a' [f..l]) = mset (map a [f..l])"
  by (simp add: loopWithin_def permutedOn_def elems_range)


lemma loopWithin_defined: "loopWithin f l (a, []) (a', tr') \<Longrightarrow> Overflow \<notin> set tr'"
  by (auto simp: loopWithin_def extends_def loopEvent_def)

section \<open>The capacity of the stack\<close>

text \<open>
  C8 as stated fails: a range of fewer than \<open>2 ^ 31\<close> cells can end at the index
  \<open>2^31 - 1\<close>. On the twelve cells from \<open>2^31 - 12\<close> to \<open>2^31 - 1\<close> the call evaluates
  \<open>lastElement + 1\<close> (line 108), a signed overflow, after which nothing is known of
  its behaviour.
\<close>

theorem twelve_cells_overflow_at_last_index:
  "(2147483647 :: int) - 2147483636 + 1 < 2 ^ 31 \<and>
   overflows (sortArray naturalOrder zeros 2147483636 2147483647 False) \<and>
   map_option (take 2 \<circ> snd) (sortArray naturalOrder zeros 2147483636 2147483647 False) =
     Some [Swap 2147483642 2147483636, Overflow]"
  by code_simp

text \<open>
  C8, amended. In the mode that does not retain the order of equivalent items, for
  every comparator and every range whose first index is above \<open>-2^31\<close>, whose last
  index is below \<open>2^31 - 1\<close> and which has fewer than \<open>2 ^ 31\<close> cells, the call returns,
  no \<open>int\<close> expression overflows, and every write to \<open>fromStack\<close> and \<open>toStack\<close> is at an
  index from 0 to 29, within the 30 cells of the two arrays.
\<close>

theorem sortArray_stack_index_bounded:
  assumes "indexRange firstElement lastElement"
  shows "\<exists>a' tr. sortArray cmp array firstElement lastElement False = Some (a', tr) \<and>
           Overflow \<notin> set tr \<and>
           (\<forall>k b c. Push k b c \<in> set tr \<longrightarrow> 0 \<le> k \<and> k \<le> 29)"
proof (cases "lastElement > firstElement")
  case True
  let ?r = "runPending cmp (array, []) [(firstElement, lastElement)]"
  have run: "sortArray cmp array firstElement lastElement False = Some (fst ?r, snd ?r)"
    using True by (simp add: sortArray_quick)
  from assms have "False \<or> indexRange firstElement lastElement" by simp
  with run have "loopWithin firstElement lastElement (array, []) (fst ?r, snd ?r)"
    by (rule sortArray_within)
  then have defined: "Overflow \<notin> set (snd ?r)" by (rule loopWithin_defined)
  have d: "depthOK (lastElement - firstElement + 1) [(firstElement, lastElement)]" by simp
  from assms have N: "lastElement - firstElement + 1 < 2 ^ 31" by (simp add: indexRange_def)
  from assms True have fr: "framed firstElement lastElement [(firstElement, lastElement)]"
    by (intro framed_call) simp_all
  have "extends (pushBelow 28) (array, []) ?r"
    by (rule runPending_depth [THEN mp, THEN mp, THEN mp, OF d N fr])
  then have "\<forall>e\<in>set (snd ?r). pushBelow 28 e" by (auto simp: extends_def)
  then have "\<forall>k b c. Push k b c \<in> set (snd ?r) \<longrightarrow> 0 \<le> k \<and> k \<le> 29" by fastforce
  with run defined show ?thesis by blast
next
  case False
  then show ?thesis by (simp add: sortArray_quick)
qed

theorem sortArray_stack_index_bounded_witness:
  "indexRange 0 11 \<and>
   (\<exists>a' tr. sortArray naturalOrder (ofList [5, 3, 4, 1, 2, 9, 8, 7, 6, 0, 11, 10]) 0 11 False = Some (a', tr) \<and>
      filter isPush tr = [Push 0 0 7] \<and> Overflow \<notin> set tr \<and>
      (\<forall>k b c. Push k b c \<in> set tr \<longrightarrow> 0 \<le> k \<and> k \<le> 29))"
proof -
  have run: "map_option (\<lambda>s. filter isPush (snd s))
      (sortArray naturalOrder (ofList [5, 3, 4, 1, 2, 9, 8, 7, 6, 0, 11, 10]) 0 11 False) = Some [Push 0 0 7]"
    by code_simp
  have small: "indexRange 0 11" by (simp add: indexRange_def)
  from sortArray_stack_index_bounded [OF small, of naturalOrder "ofList [5, 3, 4, 1, 2, 9, 8, 7, 6, 0, 11, 10]"]
  show ?thesis using run small by auto
qed

section \<open>Sortedness\<close>

text \<open>
  C1 as stated fails in the mode that does not retain the order of equivalent items:
  on the two cells \<open>2^31 - 2\<close> and \<open>2^31 - 1\<close> the selection sort compares them and then
  evaluates \<open>++k\<close> (line 92) at \<open>k = 2^31 - 1\<close>, a signed overflow, after which nothing
  is known of the behaviour of the call.
\<close>

theorem selection_sort_overflows_at_last_index:
  "consistent naturalOrder \<and>
   map_option snd (sortArray naturalOrder zeros 2147483646 2147483647 False) =
     Some [Compare 2147483647 2147483646, Overflow, Swap 2147483647 2147483646]"
proof
  show "consistent naturalOrder" by (rule consistent_naturalOrder)
  show "map_option snd (sortArray naturalOrder zeros 2147483646 2147483647 False) =
     Some [Compare 2147483647 2147483646, Overflow, Swap 2147483647 2147483646]"
    by code_simp
qed

text \<open>
  C1, amended. For every array and every comparator that keeps the three-way contract,
  in the retaining mode for every index range, and in the other mode for every index
  range whose first index is above \<open>-2^31\<close>, whose last index is below \<open>2^31 - 1\<close> and
  which has fewer than \<open>2 ^ 31\<close> cells: \<open>sortArray\<close> returns, its trace holds no
  \<open>Overflow\<close>, and afterwards \<open>compareElements (array[i], array[i + 1]) \<le> 0\<close> for every
  \<open>i\<close> from \<open>firstElement\<close> to \<open>lastElement - 1\<close>.
\<close>

theorem sortArray_sorts:
  assumes "consistent cmp" "retain \<or> indexRange firstElement lastElement"
  shows "\<exists>a' tr. sortArray cmp array firstElement lastElement retain = Some (a', tr) \<and>
           Overflow \<notin> set tr \<and>
           (\<forall>i. firstElement \<le> i \<and> i \<le> lastElement - 1 \<longrightarrow> cmp (a' i) (a' (i + 1)) \<le> 0)"
proof -
  from consistent_antisymmetric [OF assms(1)]
  have "\<not> retain \<or> antisymmetric cmp" by simp
  from sortArray_returns [OF this, of array firstElement lastElement]
  obtain s' where "sortArray cmp array firstElement lastElement retain = Some s'" ..
  then obtain a' tr where run: "sortArray cmp array firstElement lastElement retain = Some (a', tr)"
    by (cases s') simp
  from sortArray_sortedRange [OF assms(1) run assms(2)]
  have "\<forall>i. firstElement \<le> i \<and> i \<le> lastElement - 1 \<longrightarrow> cmp (a' i) (a' (i + 1)) \<le> 0"
    by (auto simp: sortedRange_def)
  moreover from sortArray_within [OF run assms(2)] have "Overflow \<notin> set tr"
    by (rule loopWithin_defined)
  ultimately show ?thesis using run by blast
qed

theorem sortArray_sorts_witness:
  "consistent naturalOrder \<and> indexRange 0 11 \<and>
   (\<exists>a' tr. sortArray naturalOrder (ofList [5, 3, 4, 1, 2, 9, 8, 7, 6, 0, 11, 10]) 0 11 False = Some (a', tr) \<and>
      map a' [0..11] = [0, 1, 2, 3, 4, 5, 6, 7, 8, 9, 10, 11] \<and> Overflow \<notin> set tr \<and>
      (\<forall>i. 0 \<le> i \<and> i \<le> 11 - 1 \<longrightarrow> naturalOrder (a' i) (a' (i + 1)) \<le> 0)) \<and>
   (\<exists>a' tr. sortArray naturalOrder (ofList [5, 3, 4, 1, 2]) 0 4 True = Some (a', tr) \<and>
      map a' [0..4] = [1, 2, 3, 4, 5] \<and> Overflow \<notin> set tr \<and>
      (\<forall>i. 0 \<le> i \<and> i \<le> 4 - 1 \<longrightarrow> naturalOrder (a' i) (a' (i + 1)) \<le> 0))"
proof -
  have r1: "map_option (\<lambda>s. map (fst s) [0..11])
      (sortArray naturalOrder (ofList [5, 3, 4, 1, 2, 9, 8, 7, 6, 0, 11, 10]) 0 11 False) =
      Some [0, 1, 2, 3, 4, 5, 6, 7, 8, 9, 10, 11]"
    by code_simp
  have r2: "map_option (\<lambda>s. map (fst s) [0..4])
      (sortArray naturalOrder (ofList [5, 3, 4, 1, 2]) 0 4 True) = Some [1, 2, 3, 4, 5]"
    by code_simp
  have ir: "indexRange 0 11" by (simp add: indexRange_def)
  then have h1: "False \<or> indexRange 0 11" by simp
  have h2: "True \<or> indexRange 0 4" by simp
  from sortArray_sorts [OF consistent_naturalOrder h1, of "ofList [5, 3, 4, 1, 2, 9, 8, 7, 6, 0, 11, 10]"]
  obtain a1 tr1 where
    s1: "sortArray naturalOrder (ofList [5, 3, 4, 1, 2, 9, 8, 7, 6, 0, 11, 10]) 0 11 False = Some (a1, tr1)"
    and d1: "Overflow \<notin> set tr1"
    and o1: "\<forall>i. 0 \<le> i \<and> i \<le> 11 - 1 \<longrightarrow> naturalOrder (a1 i) (a1 (i + 1)) \<le> 0"
    by blast
  from r1 [unfolded s1] have m1: "map a1 [0..11] = [0, 1, 2, 3, 4, 5, 6, 7, 8, 9, 10, 11]"
    by simp
  from sortArray_sorts [OF consistent_naturalOrder h2, of "ofList [5, 3, 4, 1, 2]"]
  obtain a2 tr2 where
    s2: "sortArray naturalOrder (ofList [5, 3, 4, 1, 2]) 0 4 True = Some (a2, tr2)"
    and d2: "Overflow \<notin> set tr2"
    and o2: "\<forall>i. 0 \<le> i \<and> i \<le> 4 - 1 \<longrightarrow> naturalOrder (a2 i) (a2 (i + 1)) \<le> 0"
    by blast
  from r2 [unfolded s2] have m2: "map a2 [0..4] = [1, 2, 3, 4, 5]"
    by simp
  show ?thesis
  proof (intro conjI exI)
    show "consistent naturalOrder" by (rule consistent_naturalOrder)
    show "indexRange 0 11" by (rule ir)
    show "sortArray naturalOrder (ofList [5, 3, 4, 1, 2, 9, 8, 7, 6, 0, 11, 10]) 0 11 False = Some (a1, tr1)"
      by (rule s1)
    show "map a1 [0..11] = [0, 1, 2, 3, 4, 5, 6, 7, 8, 9, 10, 11]" by (rule m1)
    show "Overflow \<notin> set tr1" by (rule d1)
    show "\<forall>i. 0 \<le> i \<and> i \<le> 11 - 1 \<longrightarrow> naturalOrder (a1 i) (a1 (i + 1)) \<le> 0" by (rule o1)
    show "sortArray naturalOrder (ofList [5, 3, 4, 1, 2]) 0 4 True = Some (a2, tr2)" by (rule s2)
    show "map a2 [0..4] = [1, 2, 3, 4, 5]" by (rule m2)
    show "Overflow \<notin> set tr2" by (rule d2)
    show "\<forall>i. 0 \<le> i \<and> i \<le> 4 - 1 \<longrightarrow> naturalOrder (a2 i) (a2 (i + 1)) \<le> 0" by (rule o2)
  qed
qed

section \<open>Permutation\<close>

text \<open>
  C2 as stated fails in the mode that does not retain the order of equivalent items:
  on the nine cells from \<open>2^31 - 9\<close> to \<open>2^31 - 1\<close> the call swaps the middle cell
  with the first one and then evaluates \<open>lastElement + 1\<close> (line 108), a signed
  overflow, after which nothing is known of the contents of the range.
\<close>

theorem partition_overflows_at_last_index:
  "overflows (sortArray alwaysAfter zeros 2147483639 2147483647 False) \<and>
   map_option (take 2 \<circ> snd) (sortArray alwaysAfter zeros 2147483639 2147483647 False) =
     Some [Swap 2147483643 2147483639, Overflow]"
  by code_simp

text \<open>
  C2, amended. For every array and comparator, in the retaining mode for every index
  range, and in the other mode for every index range whose first index is above
  \<open>-2^31\<close>, whose last index is below \<open>2^31 - 1\<close> and which has fewer than \<open>2 ^ 31\<close>
  cells: whenever \<open>sortArray\<close> returns, its trace holds no \<open>Overflow\<close> and the
  cells \<open>firstElement\<close> to \<open>lastElement\<close> hold the same multiset of elements as before
  the call. The call returns for every comparator in the mode that does not retain the
  order of equivalent items, and in the other mode for every comparator that never
  reports both \<open>a\<close> after \<open>b\<close> and \<open>b\<close> after \<open>a\<close>.
\<close>

theorem sortArray_permutes:
  assumes "retain \<or> indexRange firstElement lastElement"
  shows "(\<forall>a' tr. sortArray cmp array firstElement lastElement retain = Some (a', tr) \<longrightarrow>
            Overflow \<notin> set tr \<and>
            mset (map a' [firstElement..lastElement]) = mset (map array [firstElement..lastElement])) \<and>
         (\<not> retain \<or> antisymmetric cmp \<longrightarrow>
            (\<exists>s'. sortArray cmp array firstElement lastElement retain = Some s'))"
proof (intro conjI allI impI)
  fix a' tr
  assume "sortArray cmp array firstElement lastElement retain = Some (a', tr)"
  then have w: "loopWithin firstElement lastElement (array, []) (a', tr)"
    using assms by (rule sortArray_within)
  then show "Overflow \<notin> set tr" by (rule loopWithin_defined)
  from w show "mset (map a' [firstElement..lastElement]) = mset (map array [firstElement..lastElement])"
    by (rule loopWithin_mset)
next
  assume "\<not> retain \<or> antisymmetric cmp"
  then show "\<exists>s'. sortArray cmp array firstElement lastElement retain = Some s'"
    by (rule sortArray_returns)
qed

theorem sortArray_permutes_witness:
  "indexRange 0 11 \<and>
   (\<exists>a' tr. sortArray alwaysAfter (ofList [5, 3]) 0 1 True = Some (a', tr) \<and>
      map a' [0..1] = [3, 5] \<and> Overflow \<notin> set tr \<and>
      mset (map a' [0..1]) = mset (map (ofList [5, 3]) [0..1])) \<and>
   (\<exists>a' tr. sortArray naturalOrder (ofList [5, 3, 4, 1, 2, 9, 8, 7, 6, 0, 11, 10]) 0 11 False = Some (a', tr) \<and>
      map a' [0..11] = [0, 1, 2, 3, 4, 5, 6, 7, 8, 9, 10, 11] \<and> Overflow \<notin> set tr \<and>
      mset (map a' [0..11]) = mset (map (ofList [5, 3, 4, 1, 2, 9, 8, 7, 6, 0, 11, 10]) [0..11]))"
proof -
  have ir: "indexRange 0 11" by (simp add: indexRange_def)
  then have h2: "False \<or> indexRange 0 11" by simp
  have h1: "True \<or> indexRange 0 1" by simp
  have r1: "map_option (\<lambda>s. map (fst s) [0..1]) (sortArray alwaysAfter (ofList [5, 3]) 0 1 True) =
      Some [3, 5]"
    by code_simp
  then obtain a1 tr1 where s1: "sortArray alwaysAfter (ofList [5, 3]) 0 1 True = Some (a1, tr1)"
    by (cases "sortArray alwaysAfter (ofList [5, 3]) 0 1 True") auto
  from r1 [unfolded s1] have m1: "map a1 [0..1] = [3, 5]" by simp
  from sortArray_permutes [OF h1, of alwaysAfter "ofList [5, 3]"] s1
  have p1: "Overflow \<notin> set tr1 \<and> mset (map a1 [0..1]) = mset (map (ofList [5, 3]) [0..1])"
    by blast
  have r2: "map_option (\<lambda>s. map (fst s) [0..11])
      (sortArray naturalOrder (ofList [5, 3, 4, 1, 2, 9, 8, 7, 6, 0, 11, 10]) 0 11 False) =
      Some [0, 1, 2, 3, 4, 5, 6, 7, 8, 9, 10, 11]"
    by code_simp
  then obtain a2 tr2 where
    s2: "sortArray naturalOrder (ofList [5, 3, 4, 1, 2, 9, 8, 7, 6, 0, 11, 10]) 0 11 False = Some (a2, tr2)"
    by (cases "sortArray naturalOrder (ofList [5, 3, 4, 1, 2, 9, 8, 7, 6, 0, 11, 10]) 0 11 False") auto
  from r2 [unfolded s2] have m2: "map a2 [0..11] = [0, 1, 2, 3, 4, 5, 6, 7, 8, 9, 10, 11]" by simp
  from sortArray_permutes [OF h2, of naturalOrder "ofList [5, 3, 4, 1, 2, 9, 8, 7, 6, 0, 11, 10]"] s2
  have p2: "Overflow \<notin> set tr2 \<and>
      mset (map a2 [0..11]) = mset (map (ofList [5, 3, 4, 1, 2, 9, 8, 7, 6, 0, 11, 10]) [0..11])"
    by blast
  show ?thesis
  proof (intro conjI exI)
    show "indexRange 0 11" by (rule ir)
    show "sortArray alwaysAfter (ofList [5, 3]) 0 1 True = Some (a1, tr1)" by (rule s1)
    show "map a1 [0..1] = [3, 5]" by (rule m1)
    show "Overflow \<notin> set tr1" by (rule p1 [THEN conjunct1])
    show "mset (map a1 [0..1]) = mset (map (ofList [5, 3]) [0..1])" by (rule p1 [THEN conjunct2])
    show "sortArray naturalOrder (ofList [5, 3, 4, 1, 2, 9, 8, 7, 6, 0, 11, 10]) 0 11 False = Some (a2, tr2)"
      by (rule s2)
    show "map a2 [0..11] = [0, 1, 2, 3, 4, 5, 6, 7, 8, 9, 10, 11]" by (rule m2)
    show "Overflow \<notin> set tr2" by (rule p2 [THEN conjunct1])
    show "mset (map a2 [0..11]) = mset (map (ofList [5, 3, 4, 1, 2, 9, 8, 7, 6, 0, 11, 10]) [0..11])"
      by (rule p2 [THEN conjunct2])
  qed
qed

section \<open>Frame\<close>




section \<open>Stability\<close>

text \<open>
  C3. With \<open>retainOrderOfEquivalentItems\<close> set and a comparator that keeps the
  three-way contract, \<open>sortArray\<close> returns, and for every element \<open>x\<close> the elements of the
  range on which the comparator returns 0 against \<open>x\<close> are, read from \<open>firstElement\<close> to
  \<open>lastElement\<close>, the same sequence after the call as before it: elements that compare
  equal keep their relative order.
\<close>

theorem sortArray_stable:
  assumes "consistent cmp"
  shows "\<exists>a' tr. sortArray cmp array firstElement lastElement True = Some (a', tr) \<and>
           (\<forall>x. filter (\<lambda>y. cmp x y = 0) (map a' [firstElement..lastElement]) =
                filter (\<lambda>y. cmp x y = 0) (map array [firstElement..lastElement]))"
proof -
  from consistent_antisymmetric [OF assms]
  have "\<not> True \<or> antisymmetric cmp" by simp
  from sortArray_returns [OF this, of array firstElement lastElement]
  obtain s' where "sortArray cmp array firstElement lastElement True = Some s'" ..
  then obtain a' tr where run: "sortArray cmp array firstElement lastElement True = Some (a', tr)"
    by (cases s') simp
  have "filter (\<lambda>y. cmp x y = 0) (map a' [firstElement..lastElement]) =
        filter (\<lambda>y. cmp x y = 0) (map array [firstElement..lastElement])" for x
  proof (cases "lastElement > firstElement")
    case True
    with run have "stableLoop cmp firstElement lastElement (array, []) firstElement = Some (a', tr)"
      by (simp add: sortArray_retain_eq)
    from stableLoop_stable [OF this, of x] assms show ?thesis by simp
  next
    case False
    with run show ?thesis by (simp add: sortArray_retain_eq)
  qed
  with run show ?thesis by blast
qed

theorem sortArray_stable_witness:
  "consistent compareByFirst \<and>
   (\<exists>a' tr. sortArray compareByFirst (ofList [(1, CHR ''a''), (1, CHR ''b''), (0, CHR ''c'')]) 0 2 True
        = Some (a', tr) \<and>
      map a' [0..2] = [(0, CHR ''c''), (1, CHR ''a''), (1, CHR ''b'')] \<and>
      (\<forall>x. filter (\<lambda>y. compareByFirst x y = 0) (map a' [0..2]) =
           filter (\<lambda>y. compareByFirst x y = 0)
             (map (ofList [(1, CHR ''a''), (1, CHR ''b''), (0, CHR ''c'')]) [0..2])))"
proof -
  have r: "map_option (\<lambda>s. map (fst s) [0..2])
      (sortArray compareByFirst (ofList [(1, CHR ''a''), (1, CHR ''b''), (0, CHR ''c'')]) 0 2 True) =
      Some [(0, CHR ''c''), (1, CHR ''a''), (1, CHR ''b'')]"
    by code_simp
  from sortArray_stable [OF consistent_compareByFirst,
      of "ofList [(1, CHR ''a''), (1, CHR ''b''), (0, CHR ''c'')]" 0 2]
  obtain a' tr where
    s: "sortArray compareByFirst (ofList [(1, CHR ''a''), (1, CHR ''b''), (0, CHR ''c'')]) 0 2 True
        = Some (a', tr)"
    and st: "\<forall>x. filter (\<lambda>y. compareByFirst x y = 0) (map a' [0..2]) =
           filter (\<lambda>y. compareByFirst x y = 0)
             (map (ofList [(1, CHR ''a''), (1, CHR ''b''), (0, CHR ''c'')]) [0..2])"
    by blast
  from r [unfolded s] have m: "map a' [0..2] = [(0, CHR ''c''), (1, CHR ''a''), (1, CHR ''b'')]"
    by simp
  show ?thesis
  proof (intro conjI exI)
    show "consistent compareByFirst" by (rule consistent_compareByFirst)
    show "sortArray compareByFirst (ofList [(1, CHR ''a''), (1, CHR ''b''), (0, CHR ''c'')]) 0 2 True
        = Some (a', tr)" by (rule s)
    show "map a' [0..2] = [(0, CHR ''c''), (1, CHR ''a''), (1, CHR ''b'')]" by (rule m)
    show "\<forall>x. filter (\<lambda>y. compareByFirst x y = 0) (map a' [0..2]) =
           filter (\<lambda>y. compareByFirst x y = 0)
             (map (ofList [(1, CHR ''a''), (1, CHR ''b''), (0, CHR ''c'')]) [0..2])" by (rule st)
  qed
qed

lemma antisymmetric_naturalOrder: "antisymmetric naturalOrder"
  by (rule consistent_antisymmetric) (rule consistent_naturalOrder)

lemma stableLoop_alwaysAfter:
  assumes "stableLoop cmp lo hi s i = Some s'"
  shows "\<not> (cmp = alwaysAfter \<and> lo = 0 \<and> hi = 2 \<and> (i = 0 \<or> i = 1))"
proof (rule stableLoop.raw_induct
    [where P = "\<lambda>cmp lo hi s i s'. \<not> (cmp = alwaysAfter \<and> lo = 0 \<and> hi = 2 \<and> (i = 0 \<or> i = 1))",
      OF _ assms], goal_cases)
  case (1 loop cmp lo hi s i s')
  show ?case
  proof
    assume a: "cmp = alwaysAfter \<and> lo = 0 \<and> hi = 2 \<and> (i = 0 \<or> i = 1)"
    let ?s2 = "swapVariables (fst s, snd s @ [Compare i (i + 1)]) i (i + 1)"
    from a 1(2) have "loop alwaysAfter 0 2 ?s2 ((if i > 0 then i - 2 else i) + 1) = Some s'"
      by (auto simp: compareAt_eq alwaysAfter_def)
    from 1(1) [OF this] a show False by auto
  qed
qed

section \<open>Termination\<close>

text \<open>
  C10 as stated fails: with \<open>retainOrderOfEquivalentItems\<close> set and a comparator that
  returns 1 for every pair, \<open>sortArray\<close> on three elements never returns. The cursor
  swaps at 0, swaps at 1, steps back to 0, and so on.
\<close>

theorem sortArray_retaining_diverges:
  "sortArray alwaysAfter (ofList [1, 2, 3]) 0 2 True = None"
proof (cases "sortArray alwaysAfter (ofList [1, 2, 3]) 0 2 True")
  case None
  then show ?thesis .
next
  case (Some s')
  then have "stableLoop alwaysAfter 0 2 (ofList [1, 2, 3], []) 0 = Some s'"
    by (simp add: sortArray_retain_eq)
  from stableLoop_alwaysAfter [OF this] show ?thesis by simp
qed

text \<open>
  C10, amended. \<open>sortArray\<close> returns, with no \<open>Overflow\<close> in its trace, for every
  array: in the mode that does not retain the order of equivalent items for every
  comparator and every pair of indices of which the first is above \<open>-2^31\<close>, the last
  is below \<open>2^31 - 1\<close> and which span fewer than \<open>2 ^ 31\<close> cells; and in the retaining
  mode for every pair of indices and every comparator that never reports both \<open>a\<close>
  after \<open>b\<close> and \<open>b\<close> after \<open>a\<close>, so for every comparator that keeps the three-way
  contract. In the model the loops of lines 83 to 165 are total functions on unbounded
  integers, each with its measure, and a run of them whose trace holds no \<open>Overflow\<close>
  is step for step the run of the code on \<open>int\<close>; the loop of lines 70 to 77 is the
  partial function whose runs are measured by the number of inversions of the range
  and the distance of the cursor from \<open>lastElement\<close>.
\<close>

theorem sortArray_terminates:
  assumes "if retain then antisymmetric cmp else indexRange firstElement lastElement"
  shows "\<exists>a' tr. sortArray cmp array firstElement lastElement retain = Some (a', tr) \<and>
           Overflow \<notin> set tr"
proof -
  from assms have "\<not> retain \<or> antisymmetric cmp" by (simp split: if_splits)
  from sortArray_returns [OF this, of array firstElement lastElement]
  obtain s' where "sortArray cmp array firstElement lastElement retain = Some s'" ..
  then obtain a' tr where run: "sortArray cmp array firstElement lastElement retain = Some (a', tr)"
    by (cases s') simp
  from assms have "retain \<or> indexRange firstElement lastElement" by (simp split: if_splits)
  with run have "loopWithin firstElement lastElement (array, []) (a', tr)"
    by (rule sortArray_within)
  then have "Overflow \<notin> set tr" by (rule loopWithin_defined)
  with run show ?thesis by blast
qed

theorem sortArray_terminates_witness:
  "indexRange 0 2 \<and>
   (\<exists>a' tr. sortArray alwaysAfter (ofList [1, 2, 3]) 0 2 False = Some (a', tr) \<and>
      Overflow \<notin> set tr) \<and>
   antisymmetric naturalOrder \<and>
   (\<exists>a' tr. sortArray naturalOrder (ofList [3, 2, 1]) 0 2 True = Some (a', tr) \<and>
      Overflow \<notin> set tr)"
proof -
  have ir: "indexRange 0 2" by (simp add: indexRange_def)
  then have h1: "if False then antisymmetric alwaysAfter else indexRange 0 2" by simp
  have h2: "if True then antisymmetric naturalOrder else indexRange 0 2"
    by (simp add: antisymmetric_naturalOrder)
  from ir sortArray_terminates [OF h1, of "ofList [1, 2, 3]"]
    antisymmetric_naturalOrder sortArray_terminates [OF h2, of "ofList [3, 2, 1]"]
  show ?thesis by (intro conjI)
qed

section \<open>Which side of a partition is deferred\<close>

text \<open>
  C7 as stated fails in its gloss "only the smaller half is ever deferred": the
  first iteration on twelve elements partitions the range 0 to 11 into the cells 0 to
  7 and 9 to 11, pushes the eight cells 0 to 7 and continues with the three cells 9
  to 11. The range deferred is the larger one.
\<close>

theorem iteration_defers_larger_side:
  "snd (iteration naturalOrder (ofList [5, 3, 4, 1, 2, 9, 8, 7, 6, 0, 11, 10], []) [] 0 11) =
     ([(0, 7)], Some (9, 11)) \<and> cellCount (0, 7) > cellCount (9, 11)"
  by code_simp

text \<open>
  C7, amended. After the partition of lines 104 to 126 the sizes of the two sides,
  \<open>firstElement\<close> to \<open>j - 1\<close> and \<open>i\<close> to \<open>lastElement\<close>, are compared. The larger side (the
  left one when they are equal) is pushed on the stack if it has at least two cells,
  and nothing else is pushed; the smaller side is the range the loop continues with if
  it has at least two cells, and otherwise control falls through to the pop. A side of
  fewer than two cells is neither pushed nor continued with.
\<close>

theorem deferStep_defers_larger_side:
  assumes "deferStep s stk firstElement lastElement i j = (s1, stk1, nxt)"
    and "larger = (if cellCount (firstElement, j - 1) \<ge> cellCount (i, lastElement)
                   then (firstElement, j - 1) else (i, lastElement))"
    and "smaller = (if cellCount (firstElement, j - 1) \<ge> cellCount (i, lastElement)
                    then (i, lastElement) else (firstElement, j - 1))"
  shows "stk1 = (if cellCount larger \<ge> 2 then larger # stk else stk) \<and>
         nxt = (if cellCount smaller \<ge> 2 then Some smaller else None) \<and>
         cellCount smaller \<le> cellCount larger"
  using assms
  by (auto simp: deferStep_def push_def cellCount_def split: if_splits prod.splits)

theorem deferStep_defers_larger_side_witness:
  "deferStep (ofList [0 :: int], []) [(20, 40)] 0 11 9 8 =
     ((ofList [0], [Push 1 0 7]), [(0, 7), (20, 40)], Some (9, 11)) \<and>
   (0 :: int, 7 :: int) =
     (if cellCount (0, 8 - 1) \<ge> cellCount (9, 11) then (0, 8 - 1) else (9, 11)) \<and>
   (9 :: int, 11 :: int) =
     (if cellCount (0, 8 - 1) \<ge> cellCount (9, 11) then (9, 11) else (0, 8 - 1)) \<and>
   [(0 :: int, 7 :: int), (20, 40)] =
     (if cellCount (0, 7) \<ge> 2 then (0, 7) # [(20, 40)] else [(20, 40)]) \<and>
   Some (9 :: int, 11 :: int) = (if cellCount (9, 11) \<ge> 2 then Some (9, 11) else None) \<and>
   cellCount (9, 11) \<le> cellCount (0, 7)"
proof -
  have d: "deferStep (ofList [0 :: int], []) [(20, 40)] 0 11 9 8 =
      ((ofList [0], [Push 1 0 7]), [(0, 7), (20, 40)], Some (9, 11))"
    by (simp add: deferStep_def push_def)
  have l: "(0 :: int, 7 :: int) =
      (if cellCount (0, 8 - 1) \<ge> cellCount (9, 11) then (0, 8 - 1) else (9, 11))"
    by (simp add: cellCount_def)
  have s: "(9 :: int, 11 :: int) =
      (if cellCount (0, 8 - 1) \<ge> cellCount (9, 11) then (9, 11) else (0, 8 - 1))"
    by (simp add: cellCount_def)
  note c = deferStep_defers_larger_side [OF d l s]
  show ?thesis
    by (intro conjI) (rule d l s c [THEN conjunct1] c [THEN conjunct2, THEN conjunct1]
        c [THEN conjunct2, THEN conjunct2])+
qed

section \<open>The search for the insertion index\<close>

lemma sortedRange_le:
  assumes "consistent cmp" "sortedRange cmp a f l"
  shows "f \<le> p \<Longrightarrow> p \<le> q \<Longrightarrow> q \<le> l \<Longrightarrow> cmp (a p) (a q) \<le> 0"
proof (induction "nat (q - p)" arbitrary: q)
  case 0
  then have "q = p" by simp
  then show ?case by (simp add: consistent_refl [OF assms(1)])
next
  case (Suc n)
  then have "n = nat (q - 1 - p)" "p \<le> q - 1" "q - 1 \<le> l" by simp_all
  with Suc(1) [of "q - 1"] Suc(3) have "cmp (a p) (a (q - 1)) \<le> 0" by simp
  moreover have "f \<le> q - 1 \<and> q - 1 < l" using Suc by simp
  with assms(2) have "cmp (a (q - 1)) (a (q - 1 + 1)) \<le> 0"
    unfolding sortedRange_def by blast
  then have "cmp (a (q - 1)) (a q) \<le> 0" by simp
  ultimately show ?case by (rule consistent_trans [OF assms(1)])
qed

lemma findLoop_first_equal:
  "findLoop cmp a new f l path = Inr (r, path') \<Longrightarrow>
     find (\<lambda>p. cmp new (a p) = 0) path = None \<or>
       (find (\<lambda>p. cmp new (a p) = 0) path = Some f \<and> f < l) \<Longrightarrow>
     find (\<lambda>p. cmp new (a p) = 0) path' = Some p \<Longrightarrow> r = p + 1"
proof (induction cmp a new f l path rule: findLoop.induct)
  case (1 cmp a new f l path)
  let ?Z = "\<lambda>p. cmp new (a p) = 0"
  let ?h = "(f + l) div 2"
  have app: "find ?Z (xs @ ys) = (case find ?Z xs of None \<Rightarrow> find ?Z ys | Some x \<Rightarrow> Some x)"
    for xs ys by (induction xs) auto
  show ?case
  proof (cases "f < l")
    case True
    show ?thesis
    proof (cases "?Z f")
      case z: True
      with True "1.prems"(1) have "r = f + 1" "path' = path @ [f]"
        by (subst (asm) findLoop.simps, simp)+
      with "1.prems"(2,3) z show ?thesis by (auto simp: app)
    next
      case nz: False
      with "1.prems"(2) have none: "find ?Z path = None"
        by (auto dest: find_Some_iff [THEN iffD1])
      from True nz "1.prems"(1) have ok: "\<not> (f + l < - 2147483648 \<or> 2147483647 < f + l)"
        by (subst (asm) findLoop.simps) (simp split: if_splits)
      show ?thesis
      proof (cases "?h = f")
        case True
        with \<open>f < l\<close> nz ok "1.prems"(1) have "path' = path @ [f, ?h]"
          by (subst (asm) findLoop.simps) (auto simp: Let_def split: if_splits)
        with none nz True "1.prems"(3) show ?thesis by (simp add: app)
      next
        case hf: False
        show ?thesis
        proof (cases "cmp new (a ?h) \<ge> 0")
          case ge: True
          with \<open>f < l\<close> nz ok hf "1.prems"(1)
          have run: "findLoop cmp a new ?h l (path @ [f, ?h]) = Inr (r, path')"
            by (subst (asm) findLoop.simps) (simp add: Let_def)
          have "?h < l" using \<open>f < l\<close> by simp
          with none nz
          have "find ?Z (path @ [f, ?h]) = None \<or> (find ?Z (path @ [f, ?h]) = Some ?h \<and> ?h < l)"
            by (simp add: app)
          from "1.IH"(1) [OF \<open>f < l\<close> nz ok refl hf ge run this "1.prems"(3)] show ?thesis .
        next
          case lt: False
          with \<open>f < l\<close> nz ok hf "1.prems"(1)
          have run: "findLoop cmp a new f ?h (path @ [f, ?h]) = Inr (r, path')"
            by (subst (asm) findLoop.simps) (simp add: Let_def)
          from none nz lt
          have "find ?Z (path @ [f, ?h]) = None \<or> (find ?Z (path @ [f, ?h]) = Some f \<and> f < ?h)"
            by (simp add: app)
          from "1.IH"(2) [OF \<open>f < l\<close> nz ok refl hf lt run this "1.prems"(3)] show ?thesis .
        qed
      qed
    qed
  next
    case False
    with "1.prems"(1) have "path' = path"
      by (subst (asm) findLoop.simps) simp
    with "1.prems"(2,3) False show ?thesis by auto
  qed
qed

lemma findLoop_meets_equal:
  "findLoop cmp a new f l path = Inr (r, path') \<Longrightarrow> consistent cmp \<Longrightarrow>
     (\<forall>p q. f \<le> p \<and> p \<le> q \<and> q < l \<longrightarrow> cmp (a p) (a q) \<le> 0) \<Longrightarrow>
     (\<exists>k. f \<le> k \<and> k < l \<and> cmp new (a k) = 0) \<Longrightarrow>
     \<exists>p\<in>set path'. cmp new (a p) = 0"
proof (induction cmp a new f l path rule: findLoop.induct)
  case (1 cmp a new f l path)
  note con = "1.prems"(2) and sorted = "1.prems"(3)
  let ?h = "(f + l) div 2"
  from "1.prems"(4) obtain k where k: "f \<le> k" "k < l" "cmp new (a k) = 0" by blast
  then have fl: "f < l" by simp
  show ?case
  proof (cases "cmp new (a f) = 0")
    case True
    with fl "1.prems"(1) have "path' = path @ [f]"
      by (subst (asm) findLoop.simps) simp
    with True show ?thesis by simp
  next
    case nz: False
    with k have fk: "f < k" by (cases "k = f") auto
    then have hf: "?h \<noteq> f" using k by auto
    have h: "f \<le> ?h" "?h < l" using fl by auto
    from fl nz "1.prems"(1) have ok: "\<not> (f + l < - 2147483648 \<or> 2147483647 < f + l)"
      by (subst (asm) findLoop.simps) (simp split: if_splits)
    show ?thesis
    proof (cases "cmp new (a ?h) \<ge> 0")
      case ge: True
      with fl nz ok hf "1.prems"(1)
      have run: "findLoop cmp a new ?h l (path @ [f, ?h]) = Inr (r, path')"
        by (subst (asm) findLoop.simps) (simp add: Let_def)
      have "\<exists>k'. ?h \<le> k' \<and> k' < l \<and> cmp new (a k') = 0"
      proof (cases "?h \<le> k")
        case True
        with k show ?thesis by blast
      next
        case False
        with k sorted h have "cmp (a k) (a ?h) \<le> 0" by simp
        moreover from k have "cmp new (a k) \<le> 0" by simp
        ultimately have "cmp new (a ?h) \<le> 0" by (rule consistent_trans [OF con, rotated])
        with ge h show ?thesis by (intro exI [of _ ?h]) simp
      qed
      moreover have "\<forall>p q. ?h \<le> p \<and> p \<le> q \<and> q < l \<longrightarrow> cmp (a p) (a q) \<le> 0"
        using sorted h by simp
      ultimately show ?thesis
        using "1.IH"(1) [OF fl nz ok refl hf ge run con] by blast
    next
      case lt: False
      with fl nz ok hf "1.prems"(1)
      have run: "findLoop cmp a new f ?h (path @ [f, ?h]) = Inr (r, path')"
        by (subst (asm) findLoop.simps) (simp add: Let_def)
      have "k < ?h"
      proof (rule ccontr)
        assume "\<not> k < ?h"
        with k sorted h have "cmp (a ?h) (a k) \<le> 0" by simp
        moreover from k have "cmp (a k) new \<le> 0" using consistent_sym [OF con] by fastforce
        ultimately have "cmp (a ?h) new \<le> 0" by (rule consistent_trans [OF con])
        moreover from lt have "cmp (a ?h) new > 0"
          using con unfolding consistent_def by (metis not_le)
        ultimately show False by simp
      qed
      with k have "\<exists>k'. f \<le> k' \<and> k' < ?h \<and> cmp new (a k') = 0" by blast
      moreover have "\<forall>p q. f \<le> p \<and> p \<le> q \<and> q < ?h \<longrightarrow> cmp (a p) (a q) \<le> 0"
        using sorted h by simp
      ultimately show ?thesis
        using "1.IH"(2) [OF fl nz ok refl hf lt run con] by blast
    qed
  qed
qed

text \<open>In a range of indices from \<open>-2^30\<close> to \<open>2^30\<close> the search returns an index.\<close>

lemma findLoop_returns:
  "- 1073741824 \<le> f \<Longrightarrow> l \<le> 1073741824 \<Longrightarrow>
     \<exists>r path'. findLoop cmp a new f l path = Inr (r, path')"
proof (induction cmp a new f l path rule: findLoop.induct)
  case (1 cmp a new f l path)
  let ?h = "(f + l) div 2"
  show ?case
  proof (cases "f < l")
    case True
    show ?thesis
    proof (cases "cmp new (a f) = 0")
      case z: True
      with True show ?thesis by (subst findLoop.simps) simp
    next
      case nz: False
      from True "1.prems" have ok: "\<not> (f + l < - 2147483648 \<or> 2147483647 < f + l)" by simp
      show ?thesis
      proof (cases "?h = f")
        case True
        with \<open>f < l\<close> nz ok show ?thesis by (subst findLoop.simps) (simp add: Let_def)
      next
        case hf: False
        have h: "- 1073741824 \<le> ?h" "?h \<le> 1073741824" using True "1.prems" by auto
        show ?thesis
        proof (cases "cmp new (a ?h) \<ge> 0")
          case ge: True
          from "1.IH"(1) [OF \<open>f < l\<close> nz ok refl hf ge h(1) "1.prems"(2)]
          show ?thesis using \<open>f < l\<close> nz ok hf ge by (subst findLoop.simps) (simp add: Let_def)
        next
          case lt: False
          from "1.IH"(2) [OF \<open>f < l\<close> nz ok refl hf lt "1.prems"(1) h(2)]
          show ?thesis using \<open>f < l\<close> nz ok hf lt by (subst findLoop.simps) (simp add: Let_def)
        qed
      qed
    qed
  next
    case False
    then show ?thesis by (subst findLoop.simps) simp
  qed
qed

text \<open>
  C6 as stated fails in its general half, which has no bound on the indices: in the
  sorted array that holds 0 below index \<open>2^30 + 5\<close> and 5 from there on, the search for
  5 from \<open>2^30\<close> to \<open>2^30 + 10\<close> has elements equal to 5 in its range (the one at
  \<open>2^30 + 6\<close>, for one) and returns no index. Its first \<open>firstElement + lastElement\<close> (line 216) is \<open>2^31 + 10\<close>, a signed
  overflow.
\<close>

theorem findInsertIndexInSortedArray_overflows:
  "findInsertIndexInSortedArray naturalOrder stairs 5 1073741824 1073741834 = Inl SignedOverflow \<and>
   consistent naturalOrder \<and>
   sortedRange naturalOrder stairs 1073741824 (1073741834 - 1) \<and>
   naturalOrder 5 (stairs 1073741830) = 0"
proof (intro conjI)
  show "findInsertIndexInSortedArray naturalOrder stairs 5 1073741824 1073741834 = Inl SignedOverflow"
    by code_simp
  show "consistent naturalOrder" by (rule consistent_naturalOrder)
  show "sortedRange naturalOrder stairs 1073741824 (1073741834 - 1)"
    by (simp add: sortedRange_def naturalOrder_def compareElements_def stairs_def)
  show "naturalOrder 5 (stairs 1073741830) = 0"
    by (simp add: naturalOrder_def compareElements_def stairs_def)
qed

text \<open>
  C6, amended. On the sorted array 1, 3, 3, 5 with the natural-order comparator,
  \<open>newElement\<close> 3 and the range 0 to 4, \<open>findInsertIndexInSortedArray\<close> returns 3. In
  general, in a range of indices from \<open>-2^30\<close> to \<open>2^30\<close> the search returns an
  index, which is one past the first cell on the search path whose element compares
  equal to \<open>newElement\<close>, whenever the path has such a cell; and it has one whenever
  the comparator keeps the three-way contract, the searched range is sorted and an
  element of the range compares equal to \<open>newElement\<close>. That cell need not be the last
  duplicate: on 3, 3, 3, 3 the result is 1.
\<close>

theorem findInsertIndexInSortedArray_in_range:
  "findInsertIndexInSortedArray naturalOrder (ofList [1, 3, 3, 5]) 3 0 4 = Inr (3, [0, 2, 2]) \<and>
   findInsertIndexInSortedArray naturalOrder (ofList [3, 3, 3, 3]) 3 0 4 = Inr (1, [0]) \<and>
   (firstElement \<le> lastElement \<and> searchRange firstElement lastElement \<longrightarrow>
      (\<exists>r path.
         findInsertIndexInSortedArray cmp array newElement firstElement lastElement = Inr (r, path) \<and>
         (\<forall>p. find (\<lambda>p. cmp newElement (array p) = 0) path = Some p \<longrightarrow> r = p + 1) \<and>
         (consistent cmp \<and>
          (\<forall>i. firstElement \<le> i \<and> i < lastElement - 1 \<longrightarrow> cmp (array i) (array (i + 1)) \<le> 0) \<and>
          (\<exists>k. firstElement \<le> k \<and> k < lastElement \<and> cmp newElement (array k) = 0) \<longrightarrow>
            (\<exists>p. find (\<lambda>p. cmp newElement (array p) = 0) path = Some p))))"
proof (intro conjI impI)
  show "findInsertIndexInSortedArray naturalOrder (ofList [1, 3, 3, 5]) 3 0 4 = Inr (3, [0, 2, 2])"
    by code_simp
  show "findInsertIndexInSortedArray naturalOrder (ofList [3, 3, 3, 3]) 3 0 4 = Inr (1, [0])"
    by code_simp
next
  assume b: "firstElement \<le> lastElement \<and> searchRange firstElement lastElement"
  then have "\<exists>r path. findLoop cmp array newElement firstElement lastElement [] = Inr (r, path)"
    by (intro findLoop_returns) (simp_all add: searchRange_def)
  then obtain r path
    where loop: "findLoop cmp array newElement firstElement lastElement [] = Inr (r, path)"
    by blast
  with b have run:
    "findInsertIndexInSortedArray cmp array newElement firstElement lastElement = Inr (r, path)"
    by (simp add: findInsertIndexInSortedArray_def)
  have one: "\<forall>p. find (\<lambda>p. cmp newElement (array p) = 0) path = Some p \<longrightarrow> r = p + 1"
  proof (intro allI impI)
    fix p
    assume f: "find (\<lambda>p. cmp newElement (array p) = 0) path = Some p"
    from findLoop_first_equal [OF loop _ f] show "r = p + 1" by simp
  qed
  have two: "consistent cmp \<and>
       (\<forall>i. firstElement \<le> i \<and> i < lastElement - 1 \<longrightarrow> cmp (array i) (array (i + 1)) \<le> 0) \<and>
       (\<exists>k. firstElement \<le> k \<and> k < lastElement \<and> cmp newElement (array k) = 0) \<longrightarrow>
       (\<exists>p. find (\<lambda>p. cmp newElement (array p) = 0) path = Some p)"
  proof
    assume h: "consistent cmp \<and>
       (\<forall>i. firstElement \<le> i \<and> i < lastElement - 1 \<longrightarrow> cmp (array i) (array (i + 1)) \<le> 0) \<and>
       (\<exists>k. firstElement \<le> k \<and> k < lastElement \<and> cmp newElement (array k) = 0)"
    then have con: "consistent cmp"
      and sorted: "sortedRange cmp array firstElement (lastElement - 1)"
      and ex: "\<exists>k. firstElement \<le> k \<and> k < lastElement \<and> cmp newElement (array k) = 0"
      by (simp_all add: sortedRange_def)
    have "\<forall>p q. firstElement \<le> p \<and> p \<le> q \<and> q < lastElement \<longrightarrow> cmp (array p) (array q) \<le> 0"
      using sortedRange_le [OF con sorted] by simp
    from findLoop_meets_equal [OF loop con this ex]
    have "find (\<lambda>p. cmp newElement (array p) = 0) path \<noteq> None"
      unfolding find_None_iff by blast
    then show "\<exists>p. find (\<lambda>p. cmp newElement (array p) = 0) path = Some p" by blast
  qed
  from run one two
  show "\<exists>r path.
         findInsertIndexInSortedArray cmp array newElement firstElement lastElement = Inr (r, path) \<and>
         (\<forall>p. find (\<lambda>p. cmp newElement (array p) = 0) path = Some p \<longrightarrow> r = p + 1) \<and>
         (consistent cmp \<and>
          (\<forall>i. firstElement \<le> i \<and> i < lastElement - 1 \<longrightarrow> cmp (array i) (array (i + 1)) \<le> 0) \<and>
          (\<exists>k. firstElement \<le> k \<and> k < lastElement \<and> cmp newElement (array k) = 0) \<longrightarrow>
            (\<exists>p. find (\<lambda>p. cmp newElement (array p) = 0) path = Some p))"
    by blast
qed

theorem findInsertIndexInSortedArray_in_range_witness:
  "(0 :: int) \<le> 6 \<and> searchRange 0 6 \<and>
   findInsertIndexInSortedArray naturalOrder (ofList [1, 3, 3, 5, 7, 9]) 5 0 6 = Inr (4, [0, 3, 3]) \<and>
   find (\<lambda>p. naturalOrder 5 (ofList [1, 3, 3, 5, 7, 9] p) = 0) [0, 3, 3] = Some 3 \<and>
   consistent naturalOrder \<and>
   sortedRange naturalOrder (ofList [1, 3, 3, 5, 7, 9]) 0 (6 - 1) \<and>
   (\<exists>k. 0 \<le> k \<and> k < 6 \<and> naturalOrder 5 (ofList [1, 3, 3, 5, 7, 9] k) = 0) \<and>
   (\<exists>p. find (\<lambda>p. naturalOrder 5 (ofList [1, 3, 3, 5, 7, 9] p) = 0) [0, 3, 3] = Some p) \<and>
   (4 :: int) = 3 + 1"
proof -
  have b: "(0 :: int) \<le> 6 \<and> searchRange 0 6" by (simp add: searchRange_def)
  have run: "findInsertIndexInSortedArray naturalOrder (ofList [1, 3, 3, 5, 7, 9]) 5 0 6 = Inr (4, [0, 3, 3])"
    by code_simp
  have f: "find (\<lambda>p. naturalOrder 5 (ofList [1, 3, 3, 5, 7, 9] p) = 0) [0, 3, 3] = Some 3"
    by code_simp
  have sorted: "\<forall>i. 0 \<le> i \<and> i < 6 - 1 \<longrightarrow>
      naturalOrder (ofList [1, 3, 3, 5, 7, 9] i) (ofList [1, 3, 3, 5, 7, 9] (i + 1)) \<le> 0"
  proof (intro allI impI)
    fix i :: int assume "0 \<le> i \<and> i < 6 - 1"
    then have "i \<in> {0, 1, 2, 3, 4}" by auto
    then show "naturalOrder (ofList [1, 3, 3, 5, 7, 9] i) (ofList [1, 3, 3, 5, 7, 9] (i + 1)) \<le> 0"
      by (auto simp: naturalOrder_def compareElements_def ofList_def)
  qed
  then have range: "sortedRange naturalOrder (ofList [1, 3, 3, 5, 7, 9]) 0 (6 - 1)"
    by (simp add: sortedRange_def)
  have ex: "\<exists>k. 0 \<le> k \<and> k < 6 \<and> naturalOrder 5 (ofList [1, 3, 3, 5, 7, 9] k) = 0"
    by (intro exI [of _ 3]) (simp add: naturalOrder_def compareElements_def ofList_def)
  from findInsertIndexInSortedArray_in_range
    [where cmp = naturalOrder and array = "ofList [1, 3, 3, 5, 7, 9]" and newElement = 5
      and firstElement = 0 and lastElement = 6, THEN conjunct2, THEN conjunct2, THEN mp, OF b]
  obtain r path where inst:
    "findInsertIndexInSortedArray naturalOrder (ofList [1, 3, 3, 5, 7, 9]) 5 0 6 = Inr (r, path)"
    "\<forall>p. find (\<lambda>p. naturalOrder 5 (ofList [1, 3, 3, 5, 7, 9] p) = 0) path = Some p \<longrightarrow> r = p + 1"
    "consistent naturalOrder \<and>
       (\<forall>i. 0 \<le> i \<and> i < 6 - 1 \<longrightarrow>
          naturalOrder (ofList [1, 3, 3, 5, 7, 9] i) (ofList [1, 3, 3, 5, 7, 9] (i + 1)) \<le> 0) \<and>
       (\<exists>k. 0 \<le> k \<and> k < 6 \<and> naturalOrder 5 (ofList [1, 3, 3, 5, 7, 9] k) = 0) \<longrightarrow>
       (\<exists>p. find (\<lambda>p. naturalOrder 5 (ofList [1, 3, 3, 5, 7, 9] p) = 0) path = Some p)"
    by blast
  from inst(1) run have rp: "r = 4" "path = [0, 3, 3]" by simp_all
  from inst(2) [unfolded rp] f have r: "(4 :: int) = 3 + 1" by blast
  from inst(3) [unfolded rp] consistent_naturalOrder sorted ex
  have e: "\<exists>p. find (\<lambda>p. naturalOrder 5 (ofList [1, 3, 3, 5, 7, 9] p) = 0) [0, 3, 3] = Some p"
    by blast
  from b have b1: "(0 :: int) \<le> 6" and b2: "searchRange 0 6" by simp_all
  from b1 b2 run f consistent_naturalOrder range ex e r show ?thesis by (intro conjI)
qed

section \<open>Sorting a sorted range\<close>

lemma elems_count:
  "finite S \<Longrightarrow> size (filter_mset P (elems a S)) = card {m \<in> S. P (a m)}"
  by (simp add: elems_def filter_mset_image_mset)

lemma consistent_less_trans:
  assumes "consistent cmp" "cmp x y \<le> 0" "cmp y z < 0"
  shows "cmp x z < 0"
proof (rule ccontr)
  assume "\<not> cmp x z < 0"
  then have "cmp z x \<le> 0" by (intro consistent_ge [OF assms(1)]) simp
  from this assms(2) have "cmp z y \<le> 0" by (rule consistent_trans [OF assms(1)])
  moreover from assms(3) have "cmp z y > 0" using assms(1) unfolding consistent_def by blast
  ultimately show False by simp
qed

text \<open>Two sorted arrangements of the same elements agree cell by cell up to equivalence.\<close>

lemma sorted_same_elems_not_less:
  assumes con: "consistent cmp"
    and sa: "sortedRange cmp a f l" and sb: "sortedRange cmp b f l"
    and el: "elems b {f..l} = elems a {f..l}"
    and k: "f \<le> k" "k \<le> l"
  shows "\<not> cmp (b k) (a k) < 0"
proof
  assume less: "cmp (b k) (a k) < 0"
  let ?P = "\<lambda>z. cmp z (a k) < 0"
  have "{f..k} \<subseteq> {m \<in> {f..l}. ?P (b m)}"
  proof
    fix m assume "m \<in> {f..k}"
    then have m: "f \<le> m" "m \<le> k" by simp_all
    from sortedRange_le [OF con sb m k(2)] less have "?P (b m)"
      by (rule consistent_less_trans [OF con])
    with m k show "m \<in> {m \<in> {f..l}. ?P (b m)}" by simp
  qed
  moreover have "finite {m \<in> {f..l}. ?P (b m)}" by (rule finite_subset [of _ "{f..l}"]) auto
  ultimately have "card {f..k} \<le> card {m \<in> {f..l}. ?P (b m)}" by (intro card_mono)
  moreover have "{m \<in> {f..l}. ?P (a m)} \<subseteq> {f..k - 1}"
  proof
    fix m assume "m \<in> {m \<in> {f..l}. ?P (a m)}"
    then have m: "f \<le> m" "m \<le> l" "?P (a m)" by simp_all
    have "m < k"
    proof (rule ccontr)
      assume "\<not> m < k"
      then have "k \<le> m" by simp
      from sortedRange_le [OF con sa k(1) this m(2)] have "cmp (a k) (a m) \<le> 0" .
      moreover from m(3) have "cmp (a k) (a m) > 0" using con unfolding consistent_def by blast
      ultimately show False by simp
    qed
    with m show "m \<in> {f..k - 1}" by simp
  qed
  then have "card {m \<in> {f..l}. ?P (a m)} \<le> card {f..k - 1}" by (intro card_mono) simp_all
  moreover have "card {m \<in> {f..l}. ?P (b m)} = card {m \<in> {f..l}. ?P (a m)}"
    using el elems_count [of "{f..l}" ?P a] elems_count [of "{f..l}" ?P b] by simp
  ultimately have "card {f..k} \<le> card {f..k - 1}" by simp
  with k show False by simp
qed

lemma sorted_same_elems_equiv:
  assumes con: "consistent cmp"
    and sa: "sortedRange cmp a f l" and sb: "sortedRange cmp b f l"
    and el: "elems b {f..l} = elems a {f..l}"
    and k: "f \<le> k" "k \<le> l"
  shows "cmp (b k) (a k) = 0"
proof -
  have "\<not> cmp (b k) (a k) < 0"
    by (rule sorted_same_elems_not_less [OF con sa sb el k])
  moreover have "\<not> cmp (a k) (b k) < 0"
    by (rule sorted_same_elems_not_less [OF con sb sa el [symmetric] k])
  then have "\<not> cmp (b k) (a k) > 0" using con unfolding consistent_def by blast
  ultimately show ?thesis by simp
qed

text \<open>
  C4 as stated fails in the mode that does not retain the order of equivalent items:
  the two pairs \<open>(1, a)\<close> and \<open>(1, b)\<close>, compared by their first component, are a sorted
  range, and the selection sort of lines 86 to 101 swaps them.
\<close>

theorem sortArray_moves_equivalent_items:
  "compareByFirst (ofList [(1, CHR ''a''), (1, CHR ''b'')] 0) (ofList [(1, CHR ''a''), (1, CHR ''b'')] 1) \<le> 0 \<and>
   snapshot (sortArray compareByFirst (ofList [(1, CHR ''a''), (1, CHR ''b'')]) 0 1 False) 0 1 =
     Some [(1, CHR ''b''), (1, CHR ''a'')]"
  by code_simp

text \<open>
  C4, amended. For every array whose range \<open>firstElement\<close> to \<open>lastElement\<close> is already
  sorted under the comparator: with \<open>retainOrderOfEquivalentItems\<close> set, \<open>sortArray\<close>
  returns with every cell holding the element it held before; in the other mode, with
  a comparator that keeps the three-way contract and a range whose first index is
  above \<open>-2^31\<close>, whose last index is below \<open>2^31 - 1\<close> and which has fewer than
  \<open>2 ^ 31\<close> cells, it returns, with no \<open>int\<close> expression overflowed and every cell
  holding an element on which the comparator returns 0 against the element the cell
  held before, so with every cell unchanged when the comparator returns 0 on identical
  elements only.
\<close>

theorem sortArray_sorted_input:
  assumes "\<forall>i. firstElement \<le> i \<and> i < lastElement \<longrightarrow> cmp (array i) (array (i + 1)) \<le> 0"
  shows "(\<exists>tr. sortArray cmp array firstElement lastElement True = Some (array, tr)) \<and>
         (consistent cmp \<and> indexRange firstElement lastElement \<longrightarrow>
            (\<exists>a' tr. sortArray cmp array firstElement lastElement False = Some (a', tr) \<and>
               Overflow \<notin> set tr \<and>
               (\<forall>k. cmp (a' k) (array k) = 0) \<and>
               ((\<forall>x y. cmp x y = 0 \<longrightarrow> x = y) \<longrightarrow> a' = array)))"
proof (rule conjI)
  from assms have sorted: "sortedRange cmp array firstElement lastElement"
    by (simp add: sortedRange_def)
  show "\<exists>tr. sortArray cmp array firstElement lastElement True = Some (array, tr)"
  proof (cases "lastElement > firstElement")
    case True
    from stableLoop_sorted_input [of cmp "(array, [])" firstElement lastElement firstElement] sorted
    obtain tr where "stableLoop cmp firstElement lastElement (array, []) firstElement = Some (array, tr)"
      by auto
    with True show ?thesis by (simp add: sortArray_retain_eq)
  next
    case False
    then show ?thesis by (simp add: sortArray_retain_eq)
  qed
  show "consistent cmp \<and> indexRange firstElement lastElement \<longrightarrow>
          (\<exists>a' tr. sortArray cmp array firstElement lastElement False = Some (a', tr) \<and>
             Overflow \<notin> set tr \<and>
             (\<forall>k. cmp (a' k) (array k) = 0) \<and>
             ((\<forall>x y. cmp x y = 0 \<longrightarrow> x = y) \<longrightarrow> a' = array))"
  proof (rule impI)
    assume h: "consistent cmp \<and> indexRange firstElement lastElement"
    then have con: "consistent cmp" and ir: "False \<or> indexRange firstElement lastElement"
      by simp_all
    obtain a' tr where run: "sortArray cmp array firstElement lastElement False = Some (a', tr)"
      by (metis sortArray_quick surj_pair)
    note w = sortArray_within [OF run ir]
    from w have defined: "Overflow \<notin> set tr" by (rule loopWithin_defined)
    from w have perm: "permutedOn {firstElement..lastElement} array a'" by (simp add: loopWithin_def)
    from sortArray_sortedRange [OF con run ir]
    have sorted': "sortedRange cmp a' firstElement lastElement" by simp
    have eq: "cmp (a' k) (array k) = 0" for k
    proof (cases "firstElement \<le> k \<and> k \<le> lastElement")
      case True
      with perm show ?thesis
        by (intro sorted_same_elems_equiv [OF con sorted sorted']) (simp_all add: permutedOn_def)
    next
      case False
      with perm have "a' k = array k" by (auto simp: permutedOn_def)
      then show ?thesis by (simp add: consistent_refl [OF con])
    qed
    then have "(\<forall>x y. cmp x y = 0 \<longrightarrow> x = y) \<longrightarrow> a' = array" by (auto simp: fun_eq_iff)
    with run eq defined
    show "\<exists>a' tr. sortArray cmp array firstElement lastElement False = Some (a', tr) \<and>
             Overflow \<notin> set tr \<and>
             (\<forall>k. cmp (a' k) (array k) = 0) \<and>
             ((\<forall>x y. cmp x y = 0 \<longrightarrow> x = y) \<longrightarrow> a' = array)"
      by blast
  qed
qed

theorem sortArray_sorted_input_witness:
  "sortedRange naturalOrder (ofList [1, 2, 2, 3, 4, 5, 6, 7, 8, 9]) 0 9 \<and>
   consistent naturalOrder \<and> indexRange 0 9 \<and>
   (\<exists>tr. sortArray naturalOrder (ofList [1, 2, 2, 3, 4, 5, 6, 7, 8, 9]) 0 9 True =
      Some (ofList [1, 2, 2, 3, 4, 5, 6, 7, 8, 9], tr)) \<and>
   (\<exists>tr. sortArray naturalOrder (ofList [1, 2, 2, 3, 4, 5, 6, 7, 8, 9]) 0 9 False =
      Some (ofList [1, 2, 2, 3, 4, 5, 6, 7, 8, 9], tr) \<and> Overflow \<notin> set tr)"
proof -
  let ?A = "ofList [1, 2, 2, 3, 4, 5, 6, 7, 8, 9 :: int]"
  have sorted: "\<forall>i. 0 \<le> i \<and> i < 9 \<longrightarrow> naturalOrder (?A i) (?A (i + 1)) \<le> 0"
  proof (intro allI impI)
    fix i :: int assume "0 \<le> i \<and> i < 9"
    then have "i \<in> {0, 1, 2, 3, 4, 5, 6, 7, 8}" by auto
    then show "naturalOrder (?A i) (?A (i + 1)) \<le> 0"
      by (auto simp: naturalOrder_def compareElements_def ofList_def)
  qed
  then have range: "sortedRange naturalOrder ?A 0 9" by (simp add: sortedRange_def)
  have ident: "\<forall>x y. naturalOrder x y = 0 \<longrightarrow> x = y"
    by (auto simp: naturalOrder_def compareElements_def split: if_splits)
  note inst = sortArray_sorted_input [of 0 9 naturalOrder ?A, OF sorted]
  from inst [THEN conjunct1]
  have stable: "\<exists>tr. sortArray naturalOrder ?A 0 9 True = Some (?A, tr)" .
  have ir: "indexRange 0 9" by (simp add: indexRange_def)
  from inst [THEN conjunct2, THEN mp, OF conjI [OF consistent_naturalOrder ir]] ident
  have quick: "\<exists>tr. sortArray naturalOrder ?A 0 9 False = Some (?A, tr) \<and> Overflow \<notin> set tr"
    by blast
  from range consistent_naturalOrder ir stable quick show ?thesis by (intro conjI)
qed

end
